theory Spec2Isabelle
  imports Complex_Main "HOL-Library.Sublist" "HOL-Library.List_Lexorder" "HOL-Library.Char_ord"
begin

section \<open>Data model\<close>

text \<open>
  The script \<^verbatim>\<open>main.py\<close> works on one pandas DataFrame \<^verbatim>\<open>df\<close>. A cell is the
  missing marker (NaN, None and NaT alike), a number, a text, a timestamp (nanoseconds
  since the epoch, as a datetime64[ns] column stores it) or a calendar date (what
  \<^verbatim>\<open>.dt.date\<close> produces, as a day number). Numbers are exact rationals: the
  rounding of float64 arithmetic, which only the midpoint of an even-sized median
  performs, is not modelled, and neither are the infinities.

  A column (pandas Series) carries its dtype next to its values, since the script
  branches on \<^verbatim>\<open>df[col].dtype\<close>. The dtypes are those \<^verbatim>\<open>read_csv\<close> infers for
  numbers and text, and the one \<^verbatim>\<open>to_datetime\<close> produces; boolean columns are
  outside the model. A frame is the row labels (the pandas index) and the columns in
  their order, all of the same length.
\<close>

datatype cell = NaN | Num rat | Str string | Stamp int | Day int

datatype dtype = Int64 | Float64 | Object | Datetime64

record series =
  dtype :: dtype
  cells :: "cell list"

record frame =
  index :: "nat list"
  columns :: "(string \<times> series) list"

datatype error = KeyError string | TypeError | AttributeError

text \<open>The three labels of the radio button \<^verbatim>\<open>missing_option\<close>, in the script's order.\<close>

datatype missing_choice = DropRows | FillCentral | FillConstant

definition nrows :: "frame \<Rightarrow> nat" where
  "nrows df = length (index df)"

definition wf_frame :: "frame \<Rightarrow> bool" where
  "wf_frame df \<longleftrightarrow>
     distinct (map fst (columns df)) \<and>
     list_all (\<lambda>(n, s). length (cells s) = nrows df) (columns df)"

section \<open>Exceptions\<close>

definition bind_err :: "error + 'a \<Rightarrow> ('a \<Rightarrow> error + 'b) \<Rightarrow> error + 'b" where
  "bind_err m f = (case m of Inl e \<Rightarrow> Inl e | Inr x \<Rightarrow> f x)"

text \<open>A loop whose body may raise: the first exception ends it.\<close>

fun mapM_err :: "('a \<Rightarrow> error + 'b) \<Rightarrow> 'a list \<Rightarrow> error + 'b list" where
  "mapM_err f [] = Inr []"
| "mapM_err f (x # xs) =
     bind_err (f x) (\<lambda>y. bind_err (mapM_err f xs) (\<lambda>ys. Inr (y # ys)))"

section \<open>The pandas operations the script calls\<close>

text \<open>\<^verbatim>\<open>df[name]\<close> raises KeyError when the frame has no such column.\<close>

definition getitem :: "frame \<Rightarrow> string \<Rightarrow> error + series" where
  "getitem df name =
     (case map_of (columns df) name of
        None \<Rightarrow> Inl (KeyError name)
      | Some s \<Rightarrow> Inr s)"

text \<open>\<^verbatim>\<open>df[name] = s\<close> replaces the column where it stands, or appends a new one.\<close>

definition setitem :: "frame \<Rightarrow> string \<Rightarrow> series \<Rightarrow> frame" where
  "setitem df name s =
     (if name \<in> set (map fst (columns df))
      then df\<lparr>columns := map (\<lambda>(n, c). if n = name then (n, s) else (n, c)) (columns df)\<rparr>
      else df\<lparr>columns := columns df @ [(name, s)]\<rparr>)"

text \<open>
  \<^verbatim>\<open>pd.to_datetime(s, errors='coerce')\<close>. The conversion of one value is library
  code and a parameter \<open>conv\<close> here; with \<^verbatim>\<open>errors='coerce'\<close> a value that does not
  convert becomes NaT, and a missing value stays missing.
\<close>

definition to_datetime :: "(cell \<Rightarrow> int option) \<Rightarrow> series \<Rightarrow> series" where
  "to_datetime conv s =
     \<lparr>dtype = Datetime64,
      cells = map (\<lambda>c. case c of
                          NaN \<Rightarrow> NaN
                        | _ \<Rightarrow> (case conv c of None \<Rightarrow> NaN | Some t \<Rightarrow> Stamp t))
                  (cells s)\<rparr>"

text \<open>Boolean-mask selection \<^verbatim>\<open>df[mask]\<close>: the rows where the mask holds, in order.\<close>

definition pick :: "bool list \<Rightarrow> 'a list \<Rightarrow> 'a list" where
  "pick keep xs = map snd (filter fst (zip keep xs))"

definition select_rows :: "bool list \<Rightarrow> frame \<Rightarrow> frame" where
  "select_rows keep df =
     \<lparr>index = pick keep (index df),
      columns = map (\<lambda>(n, s). (n, s\<lparr>cells := pick keep (cells s)\<rparr>)) (columns df)\<rparr>"

definition row_at :: "frame \<Rightarrow> nat \<Rightarrow> cell list" where
  "row_at df i = map (\<lambda>(n, s). cells s ! i) (columns df)"

text \<open>
  \<^verbatim>\<open>df.duplicated()\<close> marks a row that equals an earlier one in every column
  (missing values count as equal); \<^verbatim>\<open>drop_duplicates\<close> keeps the unmarked rows.
\<close>

definition duplicated :: "frame \<Rightarrow> bool list" where
  "duplicated df = map (\<lambda>i. row_at df i \<in> set (map (row_at df) [0..<i])) [0..<nrows df]"

definition drop_duplicates :: "frame \<Rightarrow> frame" where
  "drop_duplicates df = select_rows (map Not (duplicated df)) df"

definition dropna :: "frame \<Rightarrow> frame" where
  "dropna df = select_rows (map (\<lambda>i. NaN \<notin> set (row_at df i)) [0..<nrows df]) df"

text \<open>
  \<^verbatim>\<open>Series.median()\<close> skips missing values: the middle of the sorted values, the
  mean of the two middle ones when their number is even, NaN when there is none.
\<close>

definition nums :: "series \<Rightarrow> rat list" where
  "nums s = List.map_filter (\<lambda>c. case c of Num r \<Rightarrow> Some r | _ \<Rightarrow> None) (cells s)"

definition median_of :: "rat list \<Rightarrow> cell" where
  "median_of vs =
     (let xs = sort vs; n = length xs in
      if n = 0 then NaN
      else if odd n then Num (xs ! (n div 2))
      else Num ((xs ! (n div 2 - 1) + xs ! (n div 2)) / 2))"

definition median :: "series \<Rightarrow> cell" where
  "median s = median_of (nums s)"

text \<open>
  \<^verbatim>\<open>Series.mode()\<close> skips missing values and returns the most frequent values,
  sorted. Values of one kind (the texts of an object column, the timestamps of a
  datetime column) sort by their order; pandas leaves values it cannot compare
  unsorted, in order of first appearance.
\<close>

definition notna :: "series \<Rightarrow> cell list" where
  "notna s = filter (\<lambda>c. c \<noteq> NaN) (cells s)"

definition most_frequent :: "cell list \<Rightarrow> cell list" where
  "most_frequent vs =
     filter (\<lambda>v. list_all (\<lambda>w. count_list vs w \<le> count_list vs v) vs) (rev (remdups (rev vs)))"

definition sort_cells :: "cell list \<Rightarrow> cell list" where
  "sort_cells ms =
     (if list_all (\<lambda>c. case c of Str _ \<Rightarrow> True | _ \<Rightarrow> False) ms
      then map Str (sort (List.map_filter (\<lambda>c. case c of Str t \<Rightarrow> Some t | _ \<Rightarrow> None) ms))
      else if list_all (\<lambda>c. case c of Stamp _ \<Rightarrow> True | _ \<Rightarrow> False) ms
      then map Stamp (sort (List.map_filter (\<lambda>c. case c of Stamp t \<Rightarrow> Some t | _ \<Rightarrow> None) ms))
      else if list_all (\<lambda>c. case c of Num _ \<Rightarrow> True | _ \<Rightarrow> False) ms
      then map Num (sort (List.map_filter (\<lambda>c. case c of Num r \<Rightarrow> Some r | _ \<Rightarrow> None) ms))
      else if list_all (\<lambda>c. case c of Day _ \<Rightarrow> True | _ \<Rightarrow> False) ms
      then map Day (sort (List.map_filter (\<lambda>c. case c of Day d \<Rightarrow> Some d | _ \<Rightarrow> None) ms))
      else ms)"

definition mode :: "series \<Rightarrow> cell list" where
  "mode s = sort_cells (most_frequent (notna s))"

text \<open>
  \<^verbatim>\<open>s.fillna(v, inplace=True)\<close> on the column \<^verbatim>\<open>df[col]\<close>, with the write-through
  to \<^verbatim>\<open>df\<close> of pandas before copy-on-write, which the script relies on. Filling
  with NaN changes nothing, and neither does filling a column without missing values.
  A value the dtype cannot hold turns the column into an object column.
\<close>

fun upcast :: "dtype \<Rightarrow> cell \<Rightarrow> dtype" where
  "upcast Int64 (Num r) = (if r = of_int \<lfloor>r\<rfloor> then Int64 else Float64)"
| "upcast Float64 (Num r) = Float64"
| "upcast Datetime64 (Stamp t) = Datetime64"
| "upcast d v = Object"

definition fillna :: "cell \<Rightarrow> series \<Rightarrow> series" where
  "fillna v s =
     (if v = NaN \<or> NaN \<notin> set (cells s) then s
      else \<lparr>dtype = upcast (dtype s) v,
            cells = map (\<lambda>c. if c = NaN then v else c) (cells s)\<rparr>)"

text \<open>
  A comparison of a column with the number 0. A missing value compares False; a text,
  a timestamp or a date against a number raises TypeError, and so does a
  datetime64 column as a whole.
\<close>

definition cmp_cell :: "(rat \<Rightarrow> bool) \<Rightarrow> cell \<Rightarrow> error + bool" where
  "cmp_cell rel c = (case c of NaN \<Rightarrow> Inr False | Num r \<Rightarrow> Inr (rel r) | _ \<Rightarrow> Inl TypeError)"

definition compare_zero :: "(rat \<Rightarrow> bool) \<Rightarrow> series \<Rightarrow> error + bool list" where
  "compare_zero rel s =
     (if dtype s = Datetime64 then Inl TypeError else mapM_err (cmp_cell rel) (cells s))"

section \<open>The cleaning stage of the script\<close>

text \<open>Line 21: \<^verbatim>\<open>df['order_date'] = pd.to_datetime(df['order_date'], errors='coerce')\<close>.\<close>

definition parse_dates :: "(cell \<Rightarrow> int option) \<Rightarrow> frame \<Rightarrow> error + frame" where
  "parse_dates conv df =
     bind_err (getitem df ''order_date'')
       (\<lambda>s. Inr (setitem df ''order_date'' (to_datetime conv s)))"

text \<open>Lines 57 to 62, the body of the loop over \<^verbatim>\<open>df.columns\<close>.\<close>

definition fill_central_col :: "series \<Rightarrow> error + series" where
  "fill_central_col s =
     (if dtype s \<in> {Int64, Float64} then Inr (fillna (median s) s)
      else (case mode s of
              [] \<Rightarrow> Inl (KeyError ''0'')
            | m # _ \<Rightarrow> Inr (fillna m s)))"

text \<open>Lines 63 to 68, the body of the loop over \<^verbatim>\<open>df.columns\<close>.\<close>

definition fill_constant_col :: "series \<Rightarrow> error + series" where
  "fill_constant_col s =
     (if dtype s \<in> {Int64, Float64} then Inr (fillna (Num 0) s)
      else Inr (fillna (Str ''Unknown'') s))"

definition fill_columns :: "(series \<Rightarrow> error + series) \<Rightarrow> frame \<Rightarrow> error + frame" where
  "fill_columns f df =
     bind_err (mapM_err (\<lambda>(n, s). bind_err (f s) (\<lambda>s'. Inr (n, s'))) (columns df))
       (\<lambda>cs. Inr (df\<lparr>columns := cs\<rparr>))"

text \<open>Lines 55 to 68.\<close>

definition handle_missing :: "missing_choice \<Rightarrow> frame \<Rightarrow> error + frame" where
  "handle_missing missing_option df =
     (case missing_option of
        DropRows \<Rightarrow> Inr (dropna df)
      | FillCentral \<Rightarrow> fill_columns fill_central_col df
      | FillConstant \<Rightarrow> fill_columns fill_constant_col df)"

text \<open>Line 71: \<^verbatim>\<open>df.isnull().sum()\<close>, the number of missing values of each column.\<close>

definition isnull_sum :: "frame \<Rightarrow> (string \<times> nat) list" where
  "isnull_sum df = map (\<lambda>(n, s). (n, count_list (cells s) NaN)) (columns df)"

text \<open>
  Lines 74 and 75. Line 74 counts the rows with \<^verbatim>\<open>price < 0\<close> or
  \<^verbatim>\<open>quantity <= 0\<close>; line 75 keeps the rows with \<^verbatim>\<open>price >= 0\<close> and
  \<^verbatim>\<open>quantity > 0\<close>. The result is the kept frame and the count.
\<close>

definition remove_invalid :: "frame \<Rightarrow> error + (frame \<times> nat)" where
  "remove_invalid df =
     bind_err (getitem df ''price'') (\<lambda>p.
     bind_err (compare_zero (\<lambda>r. r < 0) p) (\<lambda>m1.
     bind_err (getitem df ''quantity'') (\<lambda>q.
     bind_err (compare_zero (\<lambda>r. r \<le> 0) q) (\<lambda>m2.
     let invalid_rows = nrows (select_rows (map2 (\<or>) m1 m2) df) in
     bind_err (getitem df ''price'') (\<lambda>p'.
     bind_err (compare_zero (\<lambda>r. 0 \<le> r) p') (\<lambda>m3.
     bind_err (getitem df ''quantity'') (\<lambda>q'.
     bind_err (compare_zero (\<lambda>r. 0 < r) q') (\<lambda>m4.
     Inr (select_rows (map2 (\<and>) m3 m4) df, invalid_rows)))))))))"

text \<open>
  Lines 39 to 76: deduplication, the chosen handling of missing values, the removal of
  invalid rows. The result is the cleaned frame, the number of duplicates removed and
  the number of invalid rows reported.
\<close>

definition clean :: "missing_choice \<Rightarrow> frame \<Rightarrow> error + (frame \<times> nat \<times> nat)" where
  "clean missing_option df0 =
     (let before_dupes = nrows df0;
          df1 = drop_duplicates df0;
          after_dupes = nrows df1
      in bind_err (handle_missing missing_option df1) (\<lambda>df2.
         bind_err (remove_invalid df2) (\<lambda>(df3, invalid_rows).
         Inr (df3, before_dupes - after_dupes, invalid_rows))))"

text \<open>Lines 20 to 76, from the frame \<^verbatim>\<open>read_csv\<close> returned.\<close>

definition prepare ::
  "(cell \<Rightarrow> int option) \<Rightarrow> missing_choice \<Rightarrow> frame \<Rightarrow> error + (frame \<times> nat \<times> nat)" where
  "prepare conv missing_option raw = bind_err (parse_dates conv raw) (clean missing_option)"

text \<open>The rows of a frame with their labels, in the frame's order.\<close>

definition labelled_rows :: "frame \<Rightarrow> (nat \<times> cell list) list" where
  "labelled_rows df = zip (index df) (map (row_at df) [0..<nrows df])"

section \<open>Column classification\<close>

text \<open>Lines 84 to 86.\<close>

definition id_cols :: "string list" where
  "id_cols = [''order_id'', ''customer_id'', ''product_id'']"

definition select_dtypes :: "dtype list \<Rightarrow> frame \<Rightarrow> string list" where
  "select_dtypes include df = map fst (filter (\<lambda>(n, s). dtype s \<in> set include) (columns df))"

definition numeric_cols :: "frame \<Rightarrow> string list" where
  "numeric_cols df = filter (\<lambda>col. col \<notin> set id_cols) (select_dtypes [Int64, Float64] df)"

definition categorical_cols :: "frame \<Rightarrow> string list" where
  "categorical_cols df = select_dtypes [Object] df"

section \<open>The daily aggregation of the candlestick chart\<close>

text \<open>
  \<^verbatim>\<open>s.dt.date\<close>: the accessor exists on datetime-like columns only; a timestamp
  becomes its calendar date and NaT stays missing.
\<close>

definition ns_per_day :: int where
  "ns_per_day = 86400000000000"

definition dt_date :: "series \<Rightarrow> error + series" where
  "dt_date s =
     (if dtype s \<noteq> Datetime64 then Inl AttributeError
      else Inr \<lparr>dtype = Object,
                cells = map (\<lambda>c. case c of Stamp t \<Rightarrow> Day (t div ns_per_day) | _ \<Rightarrow> NaN)
                            (cells s)\<rparr>)"

text \<open>
  \<^verbatim>\<open>df.groupby(key)\<close>: one group per distinct non-missing key, the keys sorted, the
  rows of a group in the frame's order.
\<close>

definition group_keys :: "series \<Rightarrow> cell list" where
  "group_keys s = sort_cells (rev (remdups (rev (notna s))))"

definition group_cells :: "series \<Rightarrow> cell \<Rightarrow> series \<Rightarrow> cell list" where
  "group_cells keycol k valcol =
     map snd (filter (\<lambda>(key, v). key = k) (zip (cells keycol) (cells valcol)))"

text \<open>
  The aggregations \<^verbatim>\<open>'first'\<close>, \<^verbatim>\<open>'last'\<close>, \<^verbatim>\<open>'max'\<close> and \<^verbatim>\<open>'min'\<close> skip
  missing values and give NaN for a group without any value. Maximum and minimum
  compare values of one kind and raise TypeError on a mix.
\<close>

definition agg_first :: "cell list \<Rightarrow> cell" where
  "agg_first cs = (case filter (\<lambda>c. c \<noteq> NaN) cs of [] \<Rightarrow> NaN | v # _ \<Rightarrow> v)"

definition agg_last :: "cell list \<Rightarrow> cell" where
  "agg_last cs = (case rev (filter (\<lambda>c. c \<noteq> NaN) cs) of [] \<Rightarrow> NaN | v # _ \<Rightarrow> v)"

definition reduce :: "('a \<Rightarrow> 'a \<Rightarrow> 'a) \<Rightarrow> 'a list \<Rightarrow> 'a" where
  "reduce f xs = fold f (tl xs) (hd xs)"

definition agg_extreme ::
  "(rat \<Rightarrow> rat \<Rightarrow> rat) \<Rightarrow> (string \<Rightarrow> string \<Rightarrow> string) \<Rightarrow> (int \<Rightarrow> int \<Rightarrow> int) \<Rightarrow>
   cell list \<Rightarrow> error + cell" where
  "agg_extreme fr fs fi cs =
     (let vs = filter (\<lambda>c. c \<noteq> NaN) cs in
      if vs = [] then Inr NaN
      else if list_all (\<lambda>c. case c of Num _ \<Rightarrow> True | _ \<Rightarrow> False) vs
      then Inr (Num (reduce fr (List.map_filter (\<lambda>c. case c of Num r \<Rightarrow> Some r | _ \<Rightarrow> None) vs)))
      else if list_all (\<lambda>c. case c of Str _ \<Rightarrow> True | _ \<Rightarrow> False) vs
      then Inr (Str (reduce fs (List.map_filter (\<lambda>c. case c of Str t \<Rightarrow> Some t | _ \<Rightarrow> None) vs)))
      else if list_all (\<lambda>c. case c of Stamp _ \<Rightarrow> True | _ \<Rightarrow> False) vs
      then Inr (Stamp (reduce fi (List.map_filter (\<lambda>c. case c of Stamp t \<Rightarrow> Some t | _ \<Rightarrow> None) vs)))
      else if list_all (\<lambda>c. case c of Day _ \<Rightarrow> True | _ \<Rightarrow> False) vs
      then Inr (Day (reduce fi (List.map_filter (\<lambda>c. case c of Day d \<Rightarrow> Some d | _ \<Rightarrow> None) vs)))
      else Inl TypeError)"

definition agg_max :: "cell list \<Rightarrow> error + cell" where
  "agg_max = agg_extreme max max max"

definition agg_min :: "cell list \<Rightarrow> error + cell" where
  "agg_min = agg_extreme min min min"

record candle =
  date_key :: cell
  open_agg :: cell
  high_agg :: cell
  low_agg :: cell
  close_agg :: cell

text \<open>
  Lines 140 to 147. Without an \<^verbatim>\<open>order_date\<close> or a \<^verbatim>\<open>price\<close> column the script
  shows a warning and computes nothing (\<open>None\<close>).
\<close>

definition daily :: "frame \<Rightarrow> error + candle list option" where
  "daily df =
     (if ''order_date'' \<in> set (map fst (columns df)) \<and> ''price'' \<in> set (map fst (columns df))
      then
        bind_err (getitem df ''order_date'') (\<lambda>od.
        bind_err (dt_date od) (\<lambda>dates.
        let df' = setitem df ''date'' dates in
        bind_err (getitem df' ''date'') (\<lambda>keycol.
        bind_err (getitem df' ''price'') (\<lambda>price.
        bind_err (mapM_err (\<lambda>k.
                    let g = group_cells keycol k price in
                    bind_err (agg_max g) (\<lambda>hi.
                    bind_err (agg_min g) (\<lambda>lo.
                    Inr \<lparr>date_key = k, open_agg = agg_first g, high_agg = hi,
                         low_agg = lo, close_agg = agg_last g\<rparr>)))
                  (group_keys keycol))
          (\<lambda>agg. Inr (Some agg))))))
      else Inr None)"

section \<open>Properties in the words of the spec\<close>

text \<open>
  What the spec calls the median of a list of values: at most half of the values lie
  strictly below it and at most half strictly above.
\<close>

definition is_median :: "rat \<Rightarrow> rat list \<Rightarrow> bool" where
  "is_median m vs \<longleftrightarrow>
     2 * length (filter (\<lambda>v. v < m) vs) \<le> length vs \<and>
     2 * length (filter (\<lambda>v. m < v) vs) \<le> length vs"

text \<open>
  A column as \<^verbatim>\<open>read_csv\<close> types a column of numbers: int64 or float64, every cell a
  number or missing.
\<close>

definition numeric_series :: "series \<Rightarrow> bool" where
  "numeric_series s \<longleftrightarrow>
     dtype s \<in> {Int64, Float64} \<and>
     list_all (\<lambda>c. case c of NaN \<Rightarrow> True | Num _ \<Rightarrow> True | _ \<Rightarrow> False) (cells s)"

text \<open>
  The aggregation as the spec words it: the calendar day of a timestamp, the days that
  occur, the prices of the rows of one day in row order, and of those the first, the
  maximum, the minimum and the last.
\<close>

definition day_of :: "cell \<Rightarrow> int option" where
  "day_of c = (case c of Stamp t \<Rightarrow> Some (t div ns_per_day) | _ \<Rightarrow> None)"

definition days :: "series \<Rightarrow> int list" where
  "days od = sort (remdups (List.map_filter day_of (cells od)))"

definition day_prices :: "series \<Rightarrow> series \<Rightarrow> int \<Rightarrow> rat list" where
  "day_prices od p d =
     List.map_filter
       (\<lambda>(c, v). if day_of c = Some d then (case v of Num r \<Rightarrow> Some r | _ \<Rightarrow> None) else None)
       (zip (cells od) (cells p))"

definition ohlc_of_day :: "series \<Rightarrow> series \<Rightarrow> int \<Rightarrow> candle" where
  "ohlc_of_day od p d =
     (let ps = day_prices od p d
      in \<lparr>date_key = Day d, open_agg = Num (hd ps), high_agg = Num (Max (set ps)),
          low_agg = Num (Min (set ps)), close_agg = Num (last ps)\<rparr>)"

section \<open>Example frames\<close>

definition orders_example :: frame where
  "orders_example =
     \<lparr>index = [0, 1, 2, 3, 4],
      columns =
        [(''order_id'', \<lparr>dtype = Int64, cells = [Num 1, Num 2, Num 3, Num 3, Num 5]\<rparr>),
         (''order_date'', \<lparr>dtype = Datetime64,
             cells = [Stamp 86400000000000, Stamp 90000000000000, NaN, NaN, Stamp 172800000000000]\<rparr>),
         (''price'', \<lparr>dtype = Float64, cells = [Num 10, NaN, Num (-1), Num (-1), Num 4]\<rparr>),
         (''quantity'', \<lparr>dtype = Float64, cells = [Num 1, Num 2, NaN, NaN, Num 0]\<rparr>),
         (''category'', \<lparr>dtype = Object, cells = [Str ''x'', Str ''y'', Str ''y'', Str ''y'', NaN]\<rparr>)]\<rparr>"

definition orders_cleaned :: frame where
  "orders_cleaned =
     \<lparr>index = [0, 1],
      columns =
        [(''order_id'', \<lparr>dtype = Int64, cells = [Num 1, Num 2]\<rparr>),
         (''order_date'', \<lparr>dtype = Object, cells = [Stamp 86400000000000, Stamp 90000000000000]\<rparr>),
         (''price'', \<lparr>dtype = Float64, cells = [Num 10, Num 0]\<rparr>),
         (''quantity'', \<lparr>dtype = Float64, cells = [Num 1, Num 2]\<rparr>),
         (''category'', \<lparr>dtype = Object, cells = [Str ''x'', Str ''y'']\<rparr>)]\<rparr>"

definition orders_dropped :: frame where
  "orders_dropped =
     \<lparr>index = [0],
      columns =
        [(''order_id'', \<lparr>dtype = Int64, cells = [Num 1]\<rparr>),
         (''order_date'', \<lparr>dtype = Datetime64, cells = [Stamp 86400000000000]\<rparr>),
         (''price'', \<lparr>dtype = Float64, cells = [Num 10]\<rparr>),
         (''quantity'', \<lparr>dtype = Float64, cells = [Num 1]\<rparr>),
         (''category'', \<lparr>dtype = Object, cells = [Str ''x'']\<rparr>)]\<rparr>"

definition fill_example :: frame where
  "fill_example =
     \<lparr>index = [0, 1, 2, 3],
      columns =
        [(''price'', \<lparr>dtype = Float64, cells = [Num 1, Num 2, NaN, Num 4]\<rparr>),
         (''category'', \<lparr>dtype = Object, cells = [Str ''b'', Str ''a'', NaN, Str ''c'']\<rparr>)]\<rparr>"

definition fill_example_filled :: frame where
  "fill_example_filled =
     \<lparr>index = [0, 1, 2, 3],
      columns =
        [(''price'', \<lparr>dtype = Float64, cells = [Num 1, Num 2, Num 2, Num 4]\<rparr>),
         (''category'', \<lparr>dtype = Object, cells = [Str ''b'', Str ''a'', Str ''a'', Str ''c'']\<rparr>)]\<rparr>"

definition empty_price_example :: frame where
  "empty_price_example =
     \<lparr>index = [0, 1],
      columns =
        [(''order_date'', \<lparr>dtype = Datetime64,
             cells = [Stamp 86400000000000, Stamp 172800000000000]\<rparr>),
         (''price'', \<lparr>dtype = Float64, cells = [NaN, NaN]\<rparr>),
         (''quantity'', \<lparr>dtype = Int64, cells = [Num 2, Num 3]\<rparr>)]\<rparr>"

definition example_conv :: "cell \<Rightarrow> int option" where
  "example_conv c =
     (case c of
        Str t \<Rightarrow> (if t = ''2024-01-02'' then Some 1704153600000000000
                  else if t = ''2024-01-03'' then Some 1704240000000000000
                  else None)
      | _ \<Rightarrow> None)"

definition raw_orders_example :: frame where
  "raw_orders_example =
     \<lparr>index = [0, 1, 2],
      columns =
        [(''order_date'', \<lparr>dtype = Object,
             cells = [Str ''2024-01-02'', Str ''soon'', Str ''2024-01-03'']\<rparr>),
         (''price'', \<lparr>dtype = Float64, cells = [Num 5, NaN, Num (-2)]\<rparr>),
         (''quantity'', \<lparr>dtype = Int64, cells = [Num 1, Num 2, Num 3]\<rparr>),
         (''category'', \<lparr>dtype = Object, cells = [Str ''a'', NaN, Str ''a'']\<rparr>)]\<rparr>"

definition unparsed_dates_example :: frame where
  "unparsed_dates_example =
     \<lparr>index = [0, 1],
      columns =
        [(''order_date'', \<lparr>dtype = Object, cells = [Str ''n/a'', Str ''tbd'']\<rparr>),
         (''price'', \<lparr>dtype = Float64, cells = [Num 5, Num 6]\<rparr>),
         (''quantity'', \<lparr>dtype = Int64, cells = [Num 1, Num 2]\<rparr>)]\<rparr>"

definition text_price_example :: frame where
  "text_price_example =
     \<lparr>index = [0, 1],
      columns =
        [(''order_date'', \<lparr>dtype = Object, cells = [Str ''2024-01-02'', Str ''2024-01-03'']\<rparr>),
         (''price'', \<lparr>dtype = Object, cells = [Str ''12,50'', Str ''7'']\<rparr>),
         (''quantity'', \<lparr>dtype = Int64, cells = [Num 1, Num 2]\<rparr>)]\<rparr>"

definition no_date_example :: frame where
  "no_date_example =
     \<lparr>index = [0, 1],
      columns =
        [(''price'', \<lparr>dtype = Float64, cells = [Num 5, Num 6]\<rparr>),
         (''quantity'', \<lparr>dtype = Int64, cells = [Num 1, Num 2]\<rparr>)]\<rparr>"

definition no_price_example :: frame where
  "no_price_example =
     \<lparr>index = [0, 1],
      columns =
        [(''order_date'', \<lparr>dtype = Object, cells = [Str ''2024-01-02'', Str ''2024-01-03'']\<rparr>),
         (''quantity'', \<lparr>dtype = Int64, cells = [Num 1, Num 2]\<rparr>)]\<rparr>"

definition no_quantity_example :: frame where
  "no_quantity_example =
     \<lparr>index = [0, 1],
      columns =
        [(''order_date'', \<lparr>dtype = Object, cells = [Str ''2024-01-02'', Str ''2024-01-03'']\<rparr>),
         (''price'', \<lparr>dtype = Float64, cells = [Num 5, Num 6]\<rparr>)]\<rparr>"

definition empty_price_cleaned :: frame where
  "empty_price_cleaned =
     \<lparr>index = [],
      columns =
        [(''order_date'', \<lparr>dtype = Datetime64, cells = []\<rparr>),
         (''price'', \<lparr>dtype = Float64, cells = []\<rparr>),
         (''quantity'', \<lparr>dtype = Int64, cells = []\<rparr>)]\<rparr>"

definition classified_example :: frame where
  "classified_example =
     \<lparr>index = [0, 1],
      columns =
        [(''order_id'', \<lparr>dtype = Int64, cells = [Num 1, Num 2]\<rparr>),
         (''customer_id'', \<lparr>dtype = Object, cells = [Str ''C-17'', Str ''C-04'']\<rparr>),
         (''order_date'', \<lparr>dtype = Datetime64,
             cells = [Stamp 1704153600000000000, Stamp 1704240000000000000]\<rparr>),
         (''price'', \<lparr>dtype = Float64, cells = [Num 5, Num 6]\<rparr>),
         (''category'', \<lparr>dtype = Object, cells = [Str ''toys'', Str ''books'']\<rparr>)]\<rparr>"

definition spec_columns_example :: frame where
  "spec_columns_example =
     \<lparr>index = [0, 1],
      columns =
        [(''order_id'', \<lparr>dtype = Int64, cells = [Num 1, Num 2]\<rparr>),
         (''price'', \<lparr>dtype = Float64, cells = [Num 5, Num 6]\<rparr>),
         (''category'', \<lparr>dtype = Object, cells = [Str ''toys'', Str ''books'']\<rparr>)]\<rparr>"

definition same_day_example :: frame where
  "same_day_example =
     \<lparr>index = [0, 1, 2, 3],
      columns =
        [(''order_date'', \<lparr>dtype = Datetime64,
             cells = [Stamp 1704153600000000000, Stamp 1704157200000000000,
                      Stamp 1704160800000000000, Stamp 1704164400000000000]\<rparr>),
         (''price'', \<lparr>dtype = Float64, cells = [Num 10, Num 15, Num 8, Num 12]\<rparr>),
         (''quantity'', \<lparr>dtype = Int64, cells = [Num 1, Num 1, Num 1, Num 1]\<rparr>)]\<rparr>"

section \<open>Basic facts\<close>

lemma bind_err_Inr_iff:
  "bind_err m f = Inr y \<longleftrightarrow> (\<exists>x. m = Inr x \<and> f x = Inr y)"
  by (cases m) (simp_all add: bind_err_def)

lemma bind_err_Inl_iff:
  "bind_err m f = Inl e \<longleftrightarrow> m = Inl e \<or> (\<exists>x. m = Inr x \<and> f x = Inl e)"
  by (cases m) (simp_all add: bind_err_def)

lemma mapM_err_Inr_iff:
  "mapM_err f xs = Inr ys \<longleftrightarrow> list_all2 (\<lambda>x y. f x = Inr y) xs ys"
proof (induction xs arbitrary: ys)
  case Nil
  show ?case by auto
next
  case (Cons x xs)
  show ?case
    by (cases ys) (auto simp: bind_err_Inr_iff Cons.IH)
qed

section \<open>Row selection\<close>

lemma pick_simps [simp]:
  "pick [] xs = []"
  "pick ks [] = []"
  "pick (k # ks) (x # xs) = (if k then x # pick ks xs else pick ks xs)"
  by (simp_all add: pick_def)

lemma pick_map: "pick ks (map f xs) = map f (pick ks xs)"
proof (induction ks arbitrary: xs)
  case Nil
  show ?case by simp
next
  case (Cons k ks)
  show ?case by (cases xs) (simp_all add: Cons.IH)
qed

lemma pick_zip: "pick ks (zip xs ys) = zip (pick ks xs) (pick ks ys)"
proof (induction ks arbitrary: xs ys)
  case Nil
  show ?case by simp
next
  case (Cons k ks)
  show ?case by (cases xs; cases ys) (simp_all add: Cons.IH)
qed

lemma subseq_pick: "subseq (pick ks xs) xs"
proof (induction ks arbitrary: xs)
  case Nil
  show ?case by simp
next
  case (Cons k ks)
  show ?case by (cases xs) (auto simp: Cons.IH intro: subseq_Cons')
qed

lemma length_pick_cong:
  "length xs = length ys \<Longrightarrow> length (pick ks xs) = length (pick ks ys)"
proof (induction ks arbitrary: xs ys)
  case Nil
  show ?case by simp
next
  case (Cons k ks)
  then show ?case by (cases xs; cases ys) auto
qed

lemma in_set_pickD:
  "x \<in> set (pick ks xs) \<Longrightarrow> \<exists>i. i < length ks \<and> i < length xs \<and> ks ! i \<and> xs ! i = x"
proof (induction ks arbitrary: xs)
  case Nil
  then show ?case by simp
next
  case (Cons k ks)
  show ?case
  proof (cases xs)
    case Nil
    with Cons.prems show ?thesis by simp
  next
    case (Cons y ys)
    show ?thesis
    proof (cases "k \<and> x = y")
      case True
      then have "0 < length (k # ks) \<and> 0 < length xs \<and> (k # ks) ! 0 \<and> xs ! 0 = x"
        using Cons by simp
      then show ?thesis by blast
    next
      case False
      with Cons.prems Cons have "x \<in> set (pick ks ys)" by (auto split: if_splits)
      then obtain i where "i < length ks" "i < length ys" "ks ! i" "ys ! i = x"
        using Cons.IH by blast
      then have "Suc i < length (k # ks) \<and> Suc i < length xs \<and> (k # ks) ! Suc i \<and> xs ! Suc i = x"
        using Cons by simp
      then show ?thesis by blast
    qed
  qed
qed

lemma length_pick_filter:
  "length ks = length xs \<Longrightarrow> length (pick ks xs) = length (filter (\<lambda>b. b) ks)"
proof (induction ks arbitrary: xs)
  case Nil
  show ?case by simp
next
  case (Cons k ks)
  then show ?case by (cases xs) auto
qed


lemma index_select_rows [simp]: "index (select_rows ks df) = pick ks (index df)"
  by (simp add: select_rows_def)

lemma nrows_select_rows: "nrows (select_rows ks df) = length (pick ks (index df))"
  by (simp add: nrows_def)

lemma names_select_rows [simp]:
  "map fst (columns (select_rows ks df)) = map fst (columns df)"
  by (simp add: select_rows_def comp_def case_prod_unfold)

lemma map_of_column_map:
  "map_of (map (\<lambda>(n, s). (n, f s)) cs) name = map_option f (map_of cs name)"
  by (induction cs) auto

lemma getitem_select_rows:
  "getitem (select_rows ks df) name =
     (case getitem df name of
        Inl e \<Rightarrow> Inl e
      | Inr s \<Rightarrow> Inr (s\<lparr>cells := pick ks (cells s)\<rparr>))"
  by (simp add: getitem_def select_rows_def map_of_column_map split: option.splits)

lemma wf_frame_getitem:
  assumes "wf_frame df" and "getitem df name = Inr s"
  shows "length (cells s) = nrows df"
proof -
  from assms(2) have "map_of (columns df) name = Some s"
    by (simp add: getitem_def split: option.splits)
  then have "(name, s) \<in> set (columns df)"
    by (rule map_of_SomeD)
  with assms(1) show ?thesis
    by (auto simp: wf_frame_def list_all_iff)
qed

lemma wf_select_rows:
  assumes "wf_frame df"
  shows "wf_frame (select_rows ks df)"
proof -
  have "length (pick ks (cells s)) = length (pick ks (index df))"
    if "(n, s) \<in> set (columns df)" for n s
  proof -
    from assms that have "length (cells s) = length (index df)"
      by (auto simp: wf_frame_def list_all_iff nrows_def)
    then show ?thesis by (rule length_pick_cong)
  qed
  moreover have "distinct (map fst (columns (select_rows ks df)))"
    using assms by (simp add: wf_frame_def)
  ultimately show ?thesis
    unfolding wf_frame_def
    by (auto simp: list_all_iff nrows_def select_rows_def)
qed

lemma wf_drop_duplicates: "wf_frame df \<Longrightarrow> wf_frame (drop_duplicates df)"
  by (simp add: drop_duplicates_def wf_select_rows)

lemma wf_dropna: "wf_frame df \<Longrightarrow> wf_frame (dropna df)"
  by (simp add: dropna_def wf_select_rows)

lemma length_fillna [simp]: "length (cells (fillna v s)) = length (cells s)"
  by (simp add: fillna_def)

lemma fill_central_col_length:
  "fill_central_col s = Inr s' \<Longrightarrow> length (cells s') = length (cells s)"
  by (auto simp: fill_central_col_def split: if_splits list.splits)

lemma fill_constant_col_length:
  "fill_constant_col s = Inr s' \<Longrightarrow> length (cells s') = length (cells s)"
  by (auto simp: fill_constant_col_def split: if_splits)

lemma fill_columns_Inr:
  "fill_columns f df = Inr df' \<longleftrightarrow>
     index df' = index df \<and>
     list_all2 (\<lambda>(n, s) (n', s'). n' = n \<and> f s = Inr s') (columns df) (columns df')"
proof -
  have **: "(\<lambda>x y. (case x of (n, s) \<Rightarrow> bind_err (f s) (\<lambda>s'. Inr (n, s'))) = Inr y) =
            (\<lambda>(n, s) (n', s'). n' = n \<and> f s = Inr s')"
    by (auto simp: fun_eq_iff bind_err_Inr_iff)
  show ?thesis
    unfolding fill_columns_def bind_err_Inr_iff mapM_err_Inr_iff **
    by (cases df; cases df') auto
qed

lemma fill_columns_wf:
  assumes "fill_columns f df = Inr df'" and "wf_frame df"
    and len: "\<And>s s'. f s = Inr s' \<Longrightarrow> length (cells s') = length (cells s)"
  shows "wf_frame df'"
proof -
  from assms(1) have ix: "index df' = index df"
    and rel: "list_all2 (\<lambda>(n, s) (n', s'). n' = n \<and> f s = Inr s') (columns df) (columns df')"
    by (simp_all add: fill_columns_Inr)
  from rel have names: "map fst (columns df') = map fst (columns df)"
    by (induction rule: list_all2_induct) auto
  from rel assms(2) have "list_all (\<lambda>(n, s). length (cells s) = nrows df) (columns df')"
    unfolding wf_frame_def
    by (induction rule: list_all2_induct) (auto simp: len)
  with names ix assms(2) show ?thesis
    by (simp add: wf_frame_def nrows_def)
qed

lemma handle_missing_wf:
  assumes "handle_missing opt df = Inr df'" and "wf_frame df"
  shows "wf_frame df'"
proof (cases opt)
  case DropRows
  with assms show ?thesis by (auto simp: handle_missing_def wf_dropna)
next
  case FillCentral
  with assms show ?thesis
    by (auto simp: handle_missing_def intro: fill_columns_wf fill_central_col_length)
next
  case FillConstant
  with assms show ?thesis
    by (auto simp: handle_missing_def intro: fill_columns_wf fill_constant_col_length)
qed

section \<open>The removal of invalid rows\<close>


lemma compare_zero_Inr:
  assumes "compare_zero rel s = Inr m"
  shows "length m = length (cells s)"
    and "\<And>i. i < length m \<Longrightarrow> m ! i \<longleftrightarrow> (\<exists>r. cells s ! i = Num r \<and> rel r)"
    and "\<And>i. i < length m \<Longrightarrow> cells s ! i = NaN \<or> (\<exists>r. cells s ! i = Num r)"
proof -
  from assms have rel: "list_all2 (\<lambda>c b. cmp_cell rel c = Inr b) (cells s) m"
    by (simp add: compare_zero_def mapM_err_Inr_iff split: if_splits)
  then show len: "length m = length (cells s)"
    by (simp add: list_all2_lengthD)
  fix i assume "i < length m"
  with len have "i < length (cells s)" by simp
  from list_all2_nthD[OF rel this] have "cmp_cell rel (cells s ! i) = Inr (m ! i)" .
  then show "m ! i \<longleftrightarrow> (\<exists>r. cells s ! i = Num r \<and> rel r)"
    and "cells s ! i = NaN \<or> (\<exists>r. cells s ! i = Num r)"
    by (auto simp: cmp_cell_def split: cell.splits)
qed

lemma remove_invalid_Inr:
  assumes "remove_invalid df = Inr (df', k)"
  obtains p q m1 m2 m3 m4 where
    "getitem df ''price'' = Inr p" "getitem df ''quantity'' = Inr q"
    "compare_zero (\<lambda>r. r < 0) p = Inr m1" "compare_zero (\<lambda>r. r \<le> 0) q = Inr m2"
    "compare_zero (\<lambda>r. 0 \<le> r) p = Inr m3" "compare_zero (\<lambda>r. 0 < r) q = Inr m4"
    "df' = select_rows (map2 (\<and>) m3 m4) df"
    "k = nrows (select_rows (map2 (\<or>) m1 m2) df)"
proof -
  from assms obtain p m1 q m2 p' m3 q' m4 where
    a: "getitem df ''price'' = Inr p" "compare_zero (\<lambda>r. r < 0) p = Inr m1"
       "getitem df ''quantity'' = Inr q" "compare_zero (\<lambda>r. r \<le> 0) q = Inr m2"
       "getitem df ''price'' = Inr p'" "compare_zero (\<lambda>r. 0 \<le> r) p' = Inr m3"
       "getitem df ''quantity'' = Inr q'" "compare_zero (\<lambda>r. 0 < r) q' = Inr m4"
       "Inr (select_rows (map2 (\<and>) m3 m4) df, nrows (select_rows (map2 (\<or>) m1 m2) df))
          = (Inr (df', k) :: error + frame \<times> nat)"
    unfolding remove_invalid_def bind_err_Inr_iff Let_def by blast
  from a have "p' = p" "q' = q" by simp_all
  with a show ?thesis using that by simp
qed

lemma pick_nth_pair:
  assumes "j < length (pick ks xs)" and "length xs = length ys"
  obtains i where "i < length ks" "i < length xs" "ks ! i"
    "pick ks xs ! j = xs ! i" "pick ks ys ! j = ys ! i"
proof -
  let ?zs = "zip xs ys"
  from assms(2) have len: "length (pick ks ys) = length (pick ks xs)"
    by (rule length_pick_cong[symmetric])
  with assms(1) have jz: "j < length (pick ks ?zs)"
    by (simp add: pick_zip)
  then have "pick ks ?zs ! j \<in> set (pick ks ?zs)"
    by (rule nth_mem)
  then obtain i where i: "i < length ks" "i < length ?zs" "ks ! i" "?zs ! i = pick ks ?zs ! j"
    by (blast dest: in_set_pickD)
  from assms(1) len have "pick ks ?zs ! j = (pick ks xs ! j, pick ks ys ! j)"
    by (simp add: pick_zip)
  with i(2,4) have "xs ! i = pick ks xs ! j" "ys ! i = pick ks ys ! j" "i < length xs"
    by simp_all
  with i(1,3) show ?thesis using that by simp
qed

lemma remove_invalid_rows_valid:
  assumes run: "remove_invalid df = Inr (df', k)" and wf: "wf_frame df"
  shows "\<exists>p q. getitem df' ''price'' = Inr p \<and> getitem df' ''quantity'' = Inr q \<and>
           length (cells p) = nrows df' \<and> length (cells q) = nrows df' \<and>
           (\<forall>i<nrows df'. \<exists>a b. cells p ! i = Num a \<and> 0 \<le> a \<and> cells q ! i = Num b \<and> 0 < b)"
proof -
  from run obtain p q m3 m4 where
    p: "getitem df ''price'' = Inr p" and q: "getitem df ''quantity'' = Inr q" and
    m3: "compare_zero (\<lambda>r. 0 \<le> r) p = Inr m3" and m4: "compare_zero (\<lambda>r. 0 < r) q = Inr m4" and
    df': "df' = select_rows (map2 (\<and>) m3 m4) df"
    by (rule remove_invalid_Inr)
  define ks where "ks = map2 (\<and>) m3 m4"
  define p' where "p' = p\<lparr>cells := pick ks (cells p)\<rparr>"
  define q' where "q' = q\<lparr>cells := pick ks (cells q)\<rparr>"
  have gp: "getitem df' ''price'' = Inr p'" and gq: "getitem df' ''quantity'' = Inr q'"
    by (simp_all add: df' ks_def p'_def q'_def getitem_select_rows p q)
  have wf': "wf_frame df'"
    using wf by (simp add: df' wf_select_rows)
  have lp: "length (cells p') = nrows df'" and lq: "length (cells q') = nrows df'"
    using wf' gp gq by (simp_all add: wf_frame_getitem)
  have lens: "length (cells p) = length (cells q)"
    using wf p q by (simp add: wf_frame_getitem)
  have l3: "length m3 = length (cells p)" and l4: "length m4 = length (cells q)"
    using m3 m4 by (simp_all add: compare_zero_Inr(1))
  have "\<exists>a b. cells p' ! j = Num a \<and> 0 \<le> a \<and> cells q' ! j = Num b \<and> 0 < b"
    if "j < nrows df'" for j
  proof -
    from that lp have "j < length (pick ks (cells p))"
      by (simp add: p'_def)
    then obtain i where i: "i < length ks" "ks ! i"
      "pick ks (cells p) ! j = cells p ! i" "pick ks (cells q) ! j = cells q ! i"
      using lens by (rule pick_nth_pair)
    from i(1) have i3: "i < length m3" and i4: "i < length m4"
      by (simp_all add: ks_def)
    with i(2) have "m3 ! i" "m4 ! i"
      by (simp_all add: ks_def)
    with i3 i4 obtain a b where "cells p ! i = Num a" "0 \<le> a" "cells q ! i = Num b" "0 < b"
      using compare_zero_Inr(2)[OF m3] compare_zero_Inr(2)[OF m4] by blast
    with i show ?thesis
      by (simp add: p'_def q'_def)
  qed
  with gp gq lp lq show ?thesis by blast
qed

lemma clean_Inr:
  assumes "clean opt df = Inr (df', d, k)"
  obtains df2 where "handle_missing opt (drop_duplicates df) = Inr df2"
    "remove_invalid df2 = Inr (df', k)" "d = nrows df - nrows (drop_duplicates df)"
  using assms unfolding clean_def Let_def bind_err_Inr_iff
  by auto

text \<open>
  Claim C1. When the cleaning stage (deduplication, the chosen handling of missing
  values, the removal of invalid rows) returns, the cleaned frame has a price and a
  quantity column, and every one of its rows holds a number at least 0 as price and a
  number above 0 as quantity.
\<close>

theorem clean_rows_valid:
  assumes "clean missing_option df = Inr (cleaned, dupes, invalid)" and "wf_frame df"
  shows "\<exists>p q. getitem cleaned ''price'' = Inr p \<and> getitem cleaned ''quantity'' = Inr q \<and>
           length (cells p) = nrows cleaned \<and> length (cells q) = nrows cleaned \<and>
           (\<forall>i<nrows cleaned. \<exists>a b. cells p ! i = Num a \<and> 0 \<le> a \<and>
                                      cells q ! i = Num b \<and> 0 < b)"
proof -
  from assms(1) obtain df2 where
    hm: "handle_missing missing_option (drop_duplicates df) = Inr df2" and
    ri: "remove_invalid df2 = Inr (cleaned, invalid)"
    by (rule clean_Inr)
  from hm assms(2) have "wf_frame df2"
    by (auto intro: handle_missing_wf wf_drop_duplicates)
  with ri show ?thesis
    by (rule remove_invalid_rows_valid)
qed

theorem clean_rows_valid_witness:
  "clean FillConstant orders_example = Inr (orders_cleaned, 1, 2) \<and> wf_frame orders_example \<and>
   (\<exists>p q. getitem orders_cleaned ''price'' = Inr p \<and> getitem orders_cleaned ''quantity'' = Inr q \<and>
           length (cells p) = nrows orders_cleaned \<and> length (cells q) = nrows orders_cleaned \<and>
           (\<forall>i<nrows orders_cleaned. \<exists>a b. cells p ! i = Num a \<and> 0 \<le> a \<and>
                                      cells q ! i = Num b \<and> 0 < b))"
proof -
  have run: "clean FillConstant orders_example = Inr (orders_cleaned, 1, 2)"
    by code_simp
  have wf: "wf_frame orders_example"
    by code_simp
  from clean_rows_valid[OF run wf] run wf show ?thesis
    by blast
qed

section \<open>Constant fill followed by the removal of invalid rows\<close>

lemma nth_in_pick:
  "i < length ks \<Longrightarrow> i < length zs \<Longrightarrow> ks ! i \<Longrightarrow> zs ! i \<in> set (pick ks zs)"
proof (induction ks arbitrary: zs i)
  case Nil
  then show ?case by simp
next
  case (Cons k ks)
  then show ?case
    by (cases zs; cases i) auto
qed

lemma pick_nth_exists:
  assumes "i < length ks" "i < length xs" "ks ! i" "length xs = length ys"
  obtains j where "j < length (pick ks xs)" "pick ks xs ! j = xs ! i" "pick ks ys ! j = ys ! i"
proof -
  from assms have "zip xs ys ! i \<in> set (pick ks (zip xs ys))"
    by (intro nth_in_pick) simp_all
  with assms have "(xs ! i, ys ! i) \<in> set (zip (pick ks xs) (pick ks ys))"
    by (simp add: pick_zip)
  then obtain j where "j < length (pick ks xs)" "pick ks xs ! j = xs ! i" "pick ks ys ! j = ys ! i"
    by (auto simp: in_set_zip)
  then show ?thesis using that by blast
qed

lemma not_in_pick:
  assumes "distinct xs" "i < length xs" "i < length ks" "\<not> ks ! i"
  shows "xs ! i \<notin> set (pick ks xs)"
proof
  assume "xs ! i \<in> set (pick ks xs)"
  then obtain i' where i': "i' < length ks" "i' < length xs" "ks ! i'" "xs ! i' = xs ! i"
    by (blast dest: in_set_pickD)
  with assms(1,2) have "i' = i"
    by (simp add: nth_eq_iff_index_eq)
  with i'(3) assms(4) show False by simp
qed

lemma map_of_filled:
  assumes "list_all2 (\<lambda>(n, s) (n', s'). n' = n \<and> f s = Inr s') cs cs'"
  shows "map_of cs' name = (case map_of cs name of None \<Rightarrow> None | Some s \<Rightarrow>
           (case f s of Inr s' \<Rightarrow> Some s' | Inl e \<Rightarrow> None))"
  using assms by (induction rule: list_all2_induct) auto

lemma filled_member:
  assumes "list_all2 (\<lambda>(n, s) (n', s'). n' = n \<and> f s = Inr s') cs cs'"
    and "(name, s) \<in> set cs"
  shows "\<exists>s'. f s = Inr s'"
  using assms by (induction rule: list_all2_induct) auto

lemma fill_columns_getitem:
  assumes "fill_columns f df = Inr df'" and "getitem df name = Inr s"
  obtains s' where "f s = Inr s'" "getitem df' name = Inr s'"
proof -
  from assms(1) have rel:
    "list_all2 (\<lambda>(n, s) (n', s'). n' = n \<and> f s = Inr s') (columns df) (columns df')"
    by (simp add: fill_columns_Inr)
  from assms(2) have s: "map_of (columns df) name = Some s"
    by (simp add: getitem_def split: option.splits)
  then have "(name, s) \<in> set (columns df)"
    by (rule map_of_SomeD)
  with rel obtain s' where s': "f s = Inr s'"
    by (blast dest: filled_member)
  with map_of_filled[OF rel, of name] s have "getitem df' name = Inr s'"
    by (simp add: getitem_def)
  with s' show ?thesis using that by blast
qed

lemma fill_constant_col_cells:
  assumes "fill_constant_col s = Inr s'"
  shows "cells s' = map (\<lambda>c. if c = NaN
                             then (if dtype s \<in> {Int64, Float64} then Num 0 else Str ''Unknown'')
                             else c) (cells s)"
proof -
  have "cells (fillna v s) = map (\<lambda>c. if c = NaN then v else c) (cells s)" if "v \<noteq> NaN" for v
    using that by (auto simp: fillna_def intro: map_idI[symmetric])
  with assms show ?thesis
    by (auto simp: fill_constant_col_def split: if_splits)
qed

lemma set_pick_subset: "set (pick ks xs) \<subseteq> set xs"
  by (auto dest: in_set_pickD)

lemma distinct_pick: "distinct xs \<Longrightarrow> distinct (pick ks xs)"
proof (induction ks arbitrary: xs)
  case Nil
  show ?case by simp
next
  case (Cons k ks)
  show ?case
  proof (cases xs)
    case Nil
    then show ?thesis by simp
  next
    case (Cons y ys)
    with Cons.prems have "y \<notin> set (pick ks ys)" "distinct (pick ks ys)"
      using set_pick_subset[of ks ys] by (auto simp: Cons.IH)
    with Cons show ?thesis by simp
  qed
qed

text \<open>
  Claim C2. The removal of invalid rows works on the frame the handling of missing
  values returned. Under the constant fill, of the rows left by deduplication, a row
  whose price was missing and whose quantity is a number above 0 is in the cleaned
  frame, under its label, with price 0; a row whose quantity was missing is not in
  the cleaned frame, whatever its price.
\<close>

theorem constant_fill_then_filter:
  assumes run: "clean FillConstant df = Inr (cleaned, dupes, invalid)"
    and wf: "wf_frame df" and dist: "distinct (index df)"
    and p: "getitem (drop_duplicates df) ''price'' = Inr p"
    and q: "getitem (drop_duplicates df) ''quantity'' = Inr q"
    and i: "i < nrows (drop_duplicates df)"
  shows "(cells p ! i = NaN \<and> (\<exists>b. cells q ! i = Num b \<and> 0 < b) \<longrightarrow>
           (\<exists>p' j. getitem cleaned ''price'' = Inr p' \<and> j < nrows cleaned \<and>
                    index cleaned ! j = index (drop_duplicates df) ! i \<and> cells p' ! j = Num 0)) \<and>
         (cells q ! i = NaN \<longrightarrow> index (drop_duplicates df) ! i \<notin> set (index cleaned))"
proof -
  define df1 where "df1 = drop_duplicates df"
  from run obtain df2 where
    hm: "handle_missing FillConstant df1 = Inr df2" and
    ri: "remove_invalid df2 = Inr (cleaned, invalid)"
    unfolding df1_def by (rule clean_Inr)
  from hm have fc: "fill_columns fill_constant_col df1 = Inr df2"
    by (simp add: handle_missing_def)
  have wf1: "wf_frame df1"
    using wf by (simp add: df1_def wf_drop_duplicates)
  have wf2: "wf_frame df2"
    using hm wf1 by (rule handle_missing_wf)
  have ix: "index df2 = index df1"
    using fc by (simp add: fill_columns_Inr)
  have dist2: "distinct (index df2)"
    using dist by (simp add: ix df1_def drop_duplicates_def distinct_pick)
  from fc p obtain p2 where p2: "fill_constant_col p = Inr p2" "getitem df2 ''price'' = Inr p2"
    unfolding df1_def[symmetric] by (rule fill_columns_getitem)
  from fc q obtain q2 where q2: "fill_constant_col q = Inr q2" "getitem df2 ''quantity'' = Inr q2"
    unfolding df1_def[symmetric] by (rule fill_columns_getitem)
  from ri obtain p' q' m3 m4 where
    "getitem df2 ''price'' = Inr p'" "getitem df2 ''quantity'' = Inr q'" and
    m3': "compare_zero (\<lambda>r. 0 \<le> r) p' = Inr m3" and m4': "compare_zero (\<lambda>r. 0 < r) q' = Inr m4" and
    cl: "cleaned = select_rows (map2 (\<and>) m3 m4) df2"
    by (rule remove_invalid_Inr)
  with p2 q2 have m3: "compare_zero (\<lambda>r. 0 \<le> r) p2 = Inr m3"
    and m4: "compare_zero (\<lambda>r. 0 < r) q2 = Inr m4"
    by simp_all
  define ks where "ks = map2 (\<and>) m3 m4"
  have lp: "length (cells p2) = nrows df2" and lq: "length (cells q2) = nrows df2"
    using wf2 p2 q2 by (simp_all add: wf_frame_getitem)
  have n2: "nrows df2 = nrows df1"
    by (simp add: nrows_def ix)
  have i2: "i < nrows df2"
    using i by (simp add: n2 df1_def)
  have l3: "length m3 = nrows df2" and l4: "length m4 = nrows df2"
    using m3 m4 lp lq by (simp_all add: compare_zero_Inr(1))
  have lk: "length ks = nrows df2"
    by (simp add: ks_def l3 l4)
  have lpo: "length (cells p) = nrows df1" and lqo: "length (cells q) = nrows df1"
    using wf1 p q by (simp_all add: df1_def wf_frame_getitem)
  have cp: "cells p2 ! i = (if cells p ! i = NaN
              then (if dtype p \<in> {Int64, Float64} then Num 0 else Str ''Unknown'') else cells p ! i)"
    using i lpo by (simp add: fill_constant_col_cells[OF p2(1)] df1_def)
  have cq: "cells q2 ! i = (if cells q ! i = NaN
              then (if dtype q \<in> {Int64, Float64} then Num 0 else Str ''Unknown'') else cells q ! i)"
    using i lqo by (simp add: fill_constant_col_cells[OF q2(1)] df1_def)
  have okp: "cells p2 ! i = NaN \<or> (\<exists>r. cells p2 ! i = Num r)"
    using compare_zero_Inr(3)[OF m3] i2 l3 by simp
  have okq: "cells q2 ! i = NaN \<or> (\<exists>r. cells q2 ! i = Num r)"
    using compare_zero_Inr(3)[OF m4] i2 l4 by simp
  have k3: "m3 ! i \<longleftrightarrow> (\<exists>r. cells p2 ! i = Num r \<and> 0 \<le> r)"
    using compare_zero_Inr(2)[OF m3] i2 l3 by simp
  have k4: "m4 ! i \<longleftrightarrow> (\<exists>r. cells q2 ! i = Num r \<and> 0 < r)"
    using compare_zero_Inr(2)[OF m4] i2 l4 by simp
  have ki: "ks ! i \<longleftrightarrow> m3 ! i \<and> m4 ! i"
    using i2 l3 l4 by (simp add: ks_def)
  have kept: "\<exists>p' j. getitem cleaned ''price'' = Inr p' \<and> j < nrows cleaned \<and>
                index cleaned ! j = index df1 ! i \<and> cells p' ! j = Num 0"
    if "cells p ! i = NaN" and "cells q ! i = Num b" and "0 < b" for b
  proof -
    from that(1) cp okp have "cells p2 ! i = Num 0"
      by (auto split: if_splits)
    moreover from that(2) cq have "cells q2 ! i = Num b"
      by simp
    ultimately have ksi: "ks ! i"
      using that(3) by (simp add: ki k3 k4)
    have leq: "length (index df2) = length (cells p2)"
      by (simp add: lp nrows_def)
    have ik: "i < length ks" and ii: "i < length (index df2)"
      using i2 lk by (simp_all add: nrows_def)
    obtain j where j: "j < length (pick ks (index df2))"
      "pick ks (index df2) ! j = index df2 ! i" "pick ks (cells p2) ! j = cells p2 ! i"
      by (rule pick_nth_exists[OF ik ii ksi leq])
    have "getitem cleaned ''price'' = Inr (p2\<lparr>cells := pick ks (cells p2)\<rparr>)"
      by (simp add: cl ks_def getitem_select_rows p2)
    with j \<open>cells p2 ! i = Num 0\<close> show ?thesis
      by (auto simp: cl ks_def nrows_def ix)
  qed
  have gone: "index df1 ! i \<notin> set (index cleaned)" if "cells q ! i = NaN"
  proof -
    from that cq okq have "cells q2 ! i = Num 0"
      by (auto split: if_splits)
    then have "\<not> ks ! i"
      by (simp add: ki k4)
    with dist2 i2 lk have "index df2 ! i \<notin> set (pick ks (index df2))"
      by (intro not_in_pick) (simp_all add: nrows_def)
    then show ?thesis
      by (simp add: cl ks_def ix)
  qed
  from kept gone show ?thesis
    unfolding df1_def by blast
qed

theorem constant_fill_then_filter_witness:
  "clean FillConstant orders_example = Inr (orders_cleaned, 1, 2) \<and>
   wf_frame orders_example \<and> distinct (index orders_example) \<and>
   getitem (drop_duplicates orders_example) ''price'' =
     Inr \<lparr>dtype = Float64, cells = [Num 10, NaN, Num (-1), Num 4]\<rparr> \<and>
   getitem (drop_duplicates orders_example) ''quantity'' =
     Inr \<lparr>dtype = Float64, cells = [Num 1, Num 2, NaN, Num 0]\<rparr> \<and>
   index (drop_duplicates orders_example) = [0, 1, 2, 4] \<and>
   (\<exists>p' j. getitem orders_cleaned ''price'' = Inr p' \<and> j < nrows orders_cleaned \<and>
            index orders_cleaned ! j = 1 \<and> cells p' ! j = Num 0) \<and>
   2 \<notin> set (index orders_cleaned)"
proof -
  let ?p = "\<lparr>dtype = Float64, cells = [Num 10, NaN, Num (-1), Num 4]\<rparr>"
  let ?q = "\<lparr>dtype = Float64, cells = [Num 1, Num 2, NaN, Num 0]\<rparr>"
  have run: "clean FillConstant orders_example = Inr (orders_cleaned, 1, 2)"
    by code_simp
  have wf: "wf_frame orders_example"
    by code_simp
  have dist: "distinct (index orders_example)"
    by code_simp
  have p: "getitem (drop_duplicates orders_example) ''price'' = Inr ?p"
    by code_simp
  have q: "getitem (drop_duplicates orders_example) ''quantity'' = Inr ?q"
    by code_simp
  have ix: "index (drop_duplicates orders_example) = [0, 1, 2, 4]"
    by code_simp
  have n: "nrows (drop_duplicates orders_example) = 4"
    by (simp add: nrows_def ix)
  have i1: "1 < nrows (drop_duplicates orders_example)"
    and i2: "2 < nrows (drop_duplicates orders_example)"
    by (simp_all add: n)
  from constant_fill_then_filter[OF run wf dist p q i1]
  have a: "\<exists>p' j. getitem orders_cleaned ''price'' = Inr p' \<and> j < nrows orders_cleaned \<and>
            index orders_cleaned ! j = 1 \<and> cells p' ! j = Num 0"
    by (simp add: ix)
  from constant_fill_then_filter[OF run wf dist p q i2]
  have b: "2 \<notin> set (index orders_cleaned)"
    by (simp add: ix)
  from run wf dist p q ix a b show ?thesis
    by blast
qed

section \<open>Row order\<close>

lemma handle_missing_index:
  assumes "handle_missing opt df = Inr df'"
  shows "subseq (index df') (index df)"
proof (cases opt)
  case DropRows
  with assms show ?thesis
    by (auto simp: handle_missing_def dropna_def subseq_pick)
next
  case FillCentral
  with assms have "index df' = index df"
    by (simp add: handle_missing_def fill_columns_Inr)
  then show ?thesis by simp
next
  case FillConstant
  with assms have "index df' = index df"
    by (simp add: handle_missing_def fill_columns_Inr)
  then show ?thesis by simp
qed

lemma remove_invalid_index:
  assumes "remove_invalid df = Inr (df', k)"
  shows "subseq (index df') (index df)"
proof -
  from assms obtain m3 m4 where "df' = select_rows (map2 (\<and>) m3 m4) df"
    by (rule remove_invalid_Inr)
  then show ?thesis by (simp add: subseq_pick)
qed

lemma sorted_wrt_subseq:
  "subseq xs ys \<Longrightarrow> sorted_wrt R ys \<Longrightarrow> sorted_wrt R xs"
proof (induction rule: list_emb.induct)
  case (list_emb_Nil ys)
  show ?case by simp
next
  case (list_emb_Cons xs ys y)
  then show ?case by simp
next
  case (list_emb_Cons2 x y xs ys)
  then have "set xs \<subseteq> set ys"
    by (auto dest: list_emb_set)
  with list_emb_Cons2 show ?case by auto
qed

lemma pick_positions: "pick ks xs = map ((!) xs) (pick ks [0..<length xs])"
proof -
  have "pick ks (map ((!) xs) [0..<length xs]) = map ((!) xs) (pick ks [0..<length xs])"
    by (rule pick_map)
  then show ?thesis by (simp add: map_nth)
qed

lemma rows_select_rows:
  assumes "wf_frame df"
  shows "map (row_at (select_rows ks df)) [0..<nrows (select_rows ks df)] =
         pick ks (map (row_at df) [0..<nrows df])"
proof -
  define pos where "pos = pick ks [0..<nrows df]"
  have "length (pick ks (index df)) = length (pick ks [0..<length (index df)])"
    by (rule length_pick_cong) simp
  then have n': "nrows (select_rows ks df) = length pos"
    by (simp add: pos_def nrows_def)
  have col: "pick ks (cells s) = map ((!) (cells s)) pos" if "(n, s) \<in> set (columns df)" for n s
  proof -
    from assms that have "length (cells s) = nrows df"
      by (auto simp: wf_frame_def list_all_iff)
    with pick_positions[of ks "cells s"] show ?thesis
      by (simp add: pos_def)
  qed
  have "row_at (select_rows ks df) j = row_at df (pos ! j)" if "j < length pos" for j
    using that by (auto simp: row_at_def select_rows_def col)
  then have "map (row_at (select_rows ks df)) [0..<length pos] = map (row_at df) pos"
    by (intro nth_equalityI) simp_all
  then show ?thesis
    by (simp add: n' pos_def pick_map)
qed

lemma labelled_rows_select_rows:
  assumes "wf_frame df"
  shows "labelled_rows (select_rows ks df) = pick ks (labelled_rows df)"
  by (simp add: labelled_rows_def rows_select_rows[OF assms] pick_zip)

lemma labelled_rows_subseq:
  "wf_frame df \<Longrightarrow> subseq (labelled_rows (select_rows ks df)) (labelled_rows df)"
  by (simp add: labelled_rows_select_rows subseq_pick)

text \<open>
  Claim C10. Every step of the cleaning stage keeps the surviving rows in their
  order: deduplication, the dropping of rows with missing values and the removal of
  invalid rows return a subsequence of the labelled rows they were given, and the two
  fills keep every row in its place. So the labels of the cleaned frame are a
  subsequence of the labels of the frame that was read, and increasing when those were.
\<close>

theorem cleaning_preserves_row_order:
  assumes run: "clean missing_option df = Inr (cleaned, dupes, invalid)" and wf: "wf_frame df"
  shows "subseq (labelled_rows (drop_duplicates df)) (labelled_rows df) \<and>
         (\<exists>df2. handle_missing missing_option (drop_duplicates df) = Inr df2 \<and>
                (if missing_option = DropRows
                 then subseq (labelled_rows df2) (labelled_rows (drop_duplicates df))
                 else index df2 = index (drop_duplicates df)) \<and>
                remove_invalid df2 = Inr (cleaned, invalid) \<and>
                subseq (labelled_rows cleaned) (labelled_rows df2)) \<and>
         subseq (index cleaned) (index df) \<and>
         (sorted_wrt (<) (index df) \<longrightarrow> sorted_wrt (<) (index cleaned))"
proof -
  define df1 where "df1 = drop_duplicates df"
  from run obtain df2 where
    hm: "handle_missing missing_option df1 = Inr df2" and
    ri: "remove_invalid df2 = Inr (cleaned, invalid)"
    unfolding df1_def by (rule clean_Inr)
  have wf1: "wf_frame df1"
    using wf by (simp add: df1_def wf_drop_duplicates)
  have wf2: "wf_frame df2"
    using hm wf1 by (rule handle_missing_wf)
  have r1: "subseq (labelled_rows df1) (labelled_rows df)"
    using wf by (simp add: df1_def drop_duplicates_def labelled_rows_subseq)
  have r2: "if missing_option = DropRows then subseq (labelled_rows df2) (labelled_rows df1)
            else index df2 = index df1"
  proof (cases missing_option)
    case DropRows
    with hm wf1 show ?thesis
      by (auto simp: handle_missing_def dropna_def labelled_rows_subseq)
  next
    case FillCentral
    with hm show ?thesis
      by (simp add: handle_missing_def fill_columns_Inr)
  next
    case FillConstant
    with hm show ?thesis
      by (simp add: handle_missing_def fill_columns_Inr)
  qed
  from ri obtain m3 m4 where "cleaned = select_rows (map2 (\<and>) m3 m4) df2"
    by (rule remove_invalid_Inr)
  with wf2 have r3: "subseq (labelled_rows cleaned) (labelled_rows df2)"
    by (simp add: labelled_rows_subseq)
  have s1: "subseq (index df1) (index df)"
    by (simp add: df1_def drop_duplicates_def subseq_pick)
  have s2: "subseq (index df2) (index df1)"
    using hm by (rule handle_missing_index)
  have s3: "subseq (index cleaned) (index df2)"
    using ri by (rule remove_invalid_index)
  from s3 s2 s1 have s: "subseq (index cleaned) (index df)"
    by (blast intro: subseq_order.trans)
  from s have "sorted_wrt (<) (index cleaned)" if "sorted_wrt (<) (index df)"
    using that by (rule sorted_wrt_subseq)
  with hm ri r1 r2 r3 s show ?thesis
    unfolding df1_def by blast
qed

theorem cleaning_preserves_row_order_witness:
  "clean DropRows orders_example = Inr (orders_dropped, 1, 0) \<and> wf_frame orders_example \<and>
   subseq (labelled_rows (drop_duplicates orders_example)) (labelled_rows orders_example) \<and>
   (\<exists>df2. handle_missing DropRows (drop_duplicates orders_example) = Inr df2 \<and>
          subseq (labelled_rows df2) (labelled_rows (drop_duplicates orders_example)) \<and>
          remove_invalid df2 = Inr (orders_dropped, 0) \<and>
          subseq (labelled_rows orders_dropped) (labelled_rows df2)) \<and>
   subseq (index orders_dropped) (index orders_example) \<and>
   sorted_wrt (<) (index orders_example) \<and> sorted_wrt (<) (index orders_dropped)"
proof -
  have run: "clean DropRows orders_example = Inr (orders_dropped, 1, 0)"
    by code_simp
  have wf: "wf_frame orders_example"
    by code_simp
  have srt: "sorted_wrt (<) (index orders_example)"
    by (simp add: orders_example_def)
  from cleaning_preserves_row_order[OF run wf] run wf srt show ?thesis
    by simp
qed

section \<open>The central-tendency fill\<close>

lemma sorted_below_count:
  fixes xs :: "rat list"
  assumes "sorted xs" and "k < length xs" and "b \<le> xs ! k"
  shows "length (filter (\<lambda>v. v < b) xs) \<le> k"
proof -
  have "xs = take k xs @ drop k xs" by simp
  then have "filter (\<lambda>v. v < b) xs =
             filter (\<lambda>v. v < b) (take k xs) @ filter (\<lambda>v. v < b) (drop k xs)"
    by (metis filter_append)
  moreover have "filter (\<lambda>v. v < b) (drop k xs) = []"
  proof -
    have "\<not> v < b" if "v \<in> set (drop k xs)" for v
    proof -
      from that obtain j where "j < length (drop k xs)" "drop k xs ! j = v"
        by (auto simp: in_set_conv_nth)
      then have "v = xs ! (k + j)" "k + j < length xs" by auto
      with assms(1) have "xs ! k \<le> v"
        by (simp add: sorted_nth_mono)
      with assms(3) show ?thesis by simp
    qed
    then show ?thesis by (simp add: filter_empty_conv)
  qed
  ultimately have "length (filter (\<lambda>v. v < b) xs) = length (filter (\<lambda>v. v < b) (take k xs))"
    by simp
  also have "\<dots> \<le> length (take k xs)" by (rule length_filter_le)
  also have "\<dots> \<le> k" by simp
  finally show ?thesis .
qed

lemma sorted_above_count:
  fixes xs :: "rat list"
  assumes "sorted xs" and "k < length xs" and "xs ! k \<le> a"
  shows "length (filter (\<lambda>v. a < v) xs) \<le> length xs - Suc k"
proof -
  have "xs = take (Suc k) xs @ drop (Suc k) xs" by simp
  then have "filter (\<lambda>v. a < v) xs =
             filter (\<lambda>v. a < v) (take (Suc k) xs) @ filter (\<lambda>v. a < v) (drop (Suc k) xs)"
    by (metis filter_append)
  moreover have "filter (\<lambda>v. a < v) (take (Suc k) xs) = []"
  proof -
    have "\<not> a < v" if "v \<in> set (take (Suc k) xs)" for v
    proof -
      from that obtain j where "j < length (take (Suc k) xs)" "take (Suc k) xs ! j = v"
        by (auto simp: in_set_conv_nth)
      then have "v = xs ! j" "j \<le> k" by auto
      with assms(1,2) have "v \<le> xs ! k"
        by (simp add: sorted_nth_mono)
      with assms(3) show ?thesis by simp
    qed
    then show ?thesis by (simp add: filter_empty_conv)
  qed
  ultimately have "length (filter (\<lambda>v. a < v) xs) = length (filter (\<lambda>v. a < v) (drop (Suc k) xs))"
    by simp
  also have "\<dots> \<le> length (drop (Suc k) xs)" by (rule length_filter_le)
  also have "\<dots> = length xs - Suc k" by simp
  finally show ?thesis .
qed

lemma length_filter_sort:
  fixes vs :: "rat list"
  shows "length (filter P (sort vs)) = length (filter P vs)"
  by (simp add: filter_sort)

lemma sort_eq_Nil_iff: "sort vs = [] \<longleftrightarrow> vs = []"
  by (metis length_0_conv length_sort)

lemma median_of_is_median:
  assumes "vs \<noteq> []"
  shows "\<exists>m. median_of vs = Num m \<and> is_median m vs"
proof -
  define xs where "xs = sort vs"
  define n where "n = length xs"
  have srt: "sorted xs" and n: "n = length vs" and pos: "0 < n"
    using assms by (simp_all add: xs_def n_def)
  have ne: "sort vs \<noteq> []"
    using assms by (simp add: sort_eq_Nil_iff)
  show ?thesis
  proof (cases "odd n")
    case True
    define m where "m = xs ! (n div 2)"
    have k: "n div 2 < length xs" using pos by (simp add: n_def)
    have "length (filter (\<lambda>v. v < m) xs) \<le> n div 2"
      using srt k by (rule sorted_below_count) (simp add: m_def)
    moreover have "length (filter (\<lambda>v. m < v) xs) \<le> length xs - Suc (n div 2)"
      using srt k by (rule sorted_above_count) (simp add: m_def)
    ultimately have "is_median m vs"
      using True unfolding is_median_def
      by (auto simp: xs_def length_filter_sort n_def[symmetric] n elim!: oddE)
    moreover have "median_of vs = Num m"
      using True ne by (simp add: median_of_def Let_def m_def n_def xs_def)
    ultimately show ?thesis by blast
  next
    case False
    define h where "h = n div 2"
    define a where "a = xs ! (h - 1)"
    define b where "b = xs ! h"
    define m where "m = (a + b) / 2"
    from False pos have n2: "n = 2 * h" and hpos: "0 < h"
      by (auto simp: h_def elim!: evenE)
    have kh: "h < length xs" and kh1: "h - 1 < length xs"
      using n2 hpos by (simp_all add: n_def[symmetric])
    have "a \<le> b"
      unfolding a_def b_def using srt kh by (intro sorted_nth_mono) simp_all
    then have am: "a \<le> m" and mb: "m \<le> b"
      by (simp_all add: m_def field_simps)
    have "length (filter (\<lambda>v. v < m) xs) \<le> h"
      using srt kh mb unfolding b_def by (rule sorted_below_count)
    moreover have "length (filter (\<lambda>v. m < v) xs) \<le> length xs - Suc (h - 1)"
      using srt kh1 am unfolding a_def by (rule sorted_above_count)
    ultimately have "is_median m vs"
      using n2 hpos unfolding is_median_def
      by (simp add: xs_def length_filter_sort n_def[symmetric] n[symmetric])
    moreover have "median_of vs = Num m"
      using False ne
      by (simp add: median_of_def Let_def m_def a_def b_def h_def n_def xs_def)
    ultimately show ?thesis by blast
  qed
qed

lemma median_of_Nil_iff: "median_of vs = NaN \<longleftrightarrow> vs = []"
proof
  assume "median_of vs = NaN"
  then have "sort vs = []"
    by (simp add: median_of_def Let_def split: if_splits)
  then show "vs = []" by (simp add: sort_eq_Nil_iff)
next
  assume "vs = []"
  then show "median_of vs = NaN" by (simp add: median_of_def)
qed

lemma set_most_frequent:
  "set (most_frequent vs) =
     {v \<in> set vs. \<forall>w \<in> set vs. count_list vs w \<le> count_list vs v}"
  by (auto simp: most_frequent_def list_all_iff)

lemma distinct_most_frequent: "distinct (most_frequent vs)"
  by (simp add: most_frequent_def)

lemma most_frequent_Nil_iff: "most_frequent vs = [] \<longleftrightarrow> vs = []"
proof
  assume empty: "most_frequent vs = []"
  show "vs = []"
  proof (rule ccontr)
    assume "vs \<noteq> []"
    define top where "top = Max (count_list vs ` set vs)"
    from \<open>vs \<noteq> []\<close> have "top \<in> count_list vs ` set vs"
      unfolding top_def by (intro Max_in) simp_all
    then obtain v where v: "v \<in> set vs" "count_list vs v = top"
      by auto
    have "count_list vs w \<le> top" if "w \<in> set vs" for w
      unfolding top_def using that by (intro Max_ge) simp_all
    with v have "v \<in> set (most_frequent vs)"
      by (simp add: set_most_frequent)
    with empty show False by simp
  qed
next
  assume "vs = []"
  then show "most_frequent vs = []" by (simp add: most_frequent_def)
qed

lemma all_Str_map:
  "list_all (\<lambda>c. case c of Str _ \<Rightarrow> True | _ \<Rightarrow> False) ms \<Longrightarrow>
   map Str (List.map_filter (\<lambda>c. case c of Str t \<Rightarrow> Some t | _ \<Rightarrow> None) ms) = ms"
  by (induction ms) (auto split: cell.splits)

lemma all_Stamp_map:
  "list_all (\<lambda>c. case c of Stamp _ \<Rightarrow> True | _ \<Rightarrow> False) ms \<Longrightarrow>
   map Stamp (List.map_filter (\<lambda>c. case c of Stamp t \<Rightarrow> Some t | _ \<Rightarrow> None) ms) = ms"
  by (induction ms) (auto split: cell.splits)

lemma all_Num_map:
  "list_all (\<lambda>c. case c of Num _ \<Rightarrow> True | _ \<Rightarrow> False) ms \<Longrightarrow>
   map Num (List.map_filter (\<lambda>c. case c of Num r \<Rightarrow> Some r | _ \<Rightarrow> None) ms) = ms"
  by (induction ms) (auto split: cell.splits)

lemma all_Day_map:
  "list_all (\<lambda>c. case c of Day _ \<Rightarrow> True | _ \<Rightarrow> False) ms \<Longrightarrow>
   map Day (List.map_filter (\<lambda>c. case c of Day d \<Rightarrow> Some d | _ \<Rightarrow> None) ms) = ms"
  by (induction ms) (auto split: cell.splits)

lemma set_map_sort: "set (map f (sort xs)) = set (map f xs)"
  by simp

lemma set_sort_cells: "set (sort_cells ms) = set ms"
  unfolding sort_cells_def
  using all_Str_map[of ms] all_Stamp_map[of ms] all_Num_map[of ms] all_Day_map[of ms]
  by (auto simp only: set_map_sort split: if_splits)

lemma sort_cells_Nil_iff: "sort_cells ms = [] \<longleftrightarrow> ms = []"
  by (metis set_sort_cells set_empty)

lemma set_mode:
  "set (mode s) =
     {v \<in> set (notna s). \<forall>w \<in> set (notna s). count_list (notna s) w \<le> count_list (notna s) v}"
  by (simp add: mode_def set_sort_cells set_most_frequent)

lemma mode_Nil_iff: "mode s = [] \<longleftrightarrow> notna s = []"
  by (simp add: mode_def sort_cells_Nil_iff most_frequent_Nil_iff)

lemma mode_text_sorted:
  assumes "list_all (\<lambda>c. case c of Str _ \<Rightarrow> True | _ \<Rightarrow> False) (notna s)"
  shows "\<exists>ts. mode s = map Str ts \<and> sorted ts \<and> distinct ts"
proof -
  let ?isStr = "\<lambda>c. case c of Str _ \<Rightarrow> True | _ \<Rightarrow> False"
  let ?get = "\<lambda>c. case c of Str t \<Rightarrow> Some t | _ \<Rightarrow> None"
  define ms where "ms = most_frequent (notna s)"
  from assms have all: "list_all ?isStr ms"
    by (auto simp: ms_def list_all_iff set_most_frequent)
  define ts where "ts = List.map_filter ?get ms"
  from all have ms: "map Str ts = ms"
    unfolding ts_def by (rule all_Str_map)
  have "distinct ms"
    by (simp add: ms_def distinct_most_frequent)
  with ms have "distinct ts"
    by (metis distinct_map)
  moreover from all have "mode s = map Str (sort ts)"
    by (simp add: mode_def sort_cells_def ms_def[symmetric] ts_def)
  ultimately show ?thesis
    by (intro exI[of _ "sort ts"]) simp
qed

lemma cells_fillna: "cells (fillna v s) = map (\<lambda>c. if c = NaN then v else c) (cells s)"
  by (auto simp: fillna_def intro: map_idI[symmetric])

lemma sorted_distinct_head_less:
  fixes t :: "'a :: linorder"
  assumes "sorted (t # ts)" "distinct (t # ts)" "t' \<in> set ts"
  shows "t < t'"
  using assms by (auto simp: less_le)

text \<open>
  Claim C3. Under the central-tendency fill, a numeric column (int64 or float64) has
  each missing value replaced by the column's median, which is a median of its
  non-missing values whenever there is one; for the values 1, 2, missing, 4 it is 2.
  Any other column has each missing value replaced by the first of its modes, the
  modes being exactly the most frequent non-missing values; among the modes of a text
  column the first is the least in the order of texts.
\<close>

theorem central_fill_values:
  assumes fill: "handle_missing FillCentral df = Inr df'" and s: "getitem df name = Inr s"
  shows "\<exists>s'. getitem df' name = Inr s' \<and>
     (if dtype s \<in> {Int64, Float64}
      then cells s' = map (\<lambda>c. if c = NaN then median s else c) (cells s) \<and>
           (nums s \<noteq> [] \<longrightarrow> (\<exists>m. median s = Num m \<and> is_median m (nums s)))
      else \<exists>m rest. mode s = m # rest \<and>
             cells s' = map (\<lambda>c. if c = NaN then m else c) (cells s) \<and>
             set (mode s) =
               {v \<in> set (notna s).
                  \<forall>w \<in> set (notna s). count_list (notna s) w \<le> count_list (notna s) v} \<and>
             (list_all (\<lambda>c. case c of Str _ \<Rightarrow> True | _ \<Rightarrow> False) (notna s) \<longrightarrow>
                (\<exists>t. m = Str t \<and> (\<forall>t'. Str t' \<in> set rest \<longrightarrow> t < t'))))"
proof -
  from fill have "fill_columns fill_central_col df = Inr df'"
    by (simp add: handle_missing_def)
  from this s obtain s' where s': "fill_central_col s = Inr s'" "getitem df' name = Inr s'"
    by (rule fill_columns_getitem)
  show ?thesis
  proof (cases "dtype s \<in> {Int64, Float64}")
    case True
    with s'(1) have "cells s' = map (\<lambda>c. if c = NaN then median s else c) (cells s)"
      by (auto simp: fill_central_col_def cells_fillna)
    moreover have "\<exists>m. median s = Num m \<and> is_median m (nums s)" if "nums s \<noteq> []"
      unfolding median_def using that by (rule median_of_is_median)
    ultimately show ?thesis
      using True s'(2) by simp
  next
    case False
    with s'(1) obtain m rest where m: "mode s = m # rest" "s' = fillna m s"
      by (auto simp: fill_central_col_def split: list.splits)
    have "\<exists>t. m = Str t \<and> (\<forall>t'. Str t' \<in> set rest \<longrightarrow> t < t')"
      if "list_all (\<lambda>c. case c of Str _ \<Rightarrow> True | _ \<Rightarrow> False) (notna s)"
    proof -
      from that obtain ts where ts: "mode s = map Str ts" "sorted ts" "distinct ts"
        by (blast dest: mode_text_sorted)
      with m(1) obtain t ts' where t: "ts = t # ts'" "m = Str t" "rest = map Str ts'"
        by (cases ts) auto
      with ts(2,3) have "t < t'" if "Str t' \<in> set rest" for t'
        using that by (intro sorted_distinct_head_less[of t ts']) auto
      with t(2) show ?thesis by blast
    qed
    with m False s'(2) show ?thesis
      by (simp add: cells_fillna set_mode[symmetric])
  qed
qed

theorem central_fill_values_witness:
  "handle_missing FillCentral fill_example = Inr fill_example_filled \<and>
   getitem fill_example ''price'' = Inr \<lparr>dtype = Float64, cells = [Num 1, Num 2, NaN, Num 4]\<rparr> \<and>
   getitem fill_example ''category'' =
     Inr \<lparr>dtype = Object, cells = [Str ''b'', Str ''a'', NaN, Str ''c'']\<rparr> \<and>
   (\<exists>s'. getitem fill_example_filled ''price'' = Inr s' \<and>
         cells s' = [Num 1, Num 2, Num 2, Num 4] \<and> is_median 2 [1, 2, 4]) \<and>
   (\<exists>s'. getitem fill_example_filled ''category'' = Inr s' \<and>
         cells s' = [Str ''b'', Str ''a'', Str ''a'', Str ''c''])"
proof -
  let ?p = "\<lparr>dtype = Float64, cells = [Num 1, Num 2, NaN, Num 4]\<rparr>"
  let ?c = "\<lparr>dtype = Object, cells = [Str ''b'', Str ''a'', NaN, Str ''c'']\<rparr>"
  have fill: "handle_missing FillCentral fill_example = Inr fill_example_filled"
    by code_simp
  have p: "getitem fill_example ''price'' = Inr ?p"
    by code_simp
  have c: "getitem fill_example ''category'' = Inr ?c"
    by code_simp
  have med: "median ?p = Num 2"
    by code_simp
  have nums: "nums ?p = [1, 2, 4]"
    by code_simp
  have md: "mode ?c = [Str ''a'', Str ''b'', Str ''c'']"
    by code_simp
  from central_fill_values[OF fill p]
  have a: "\<exists>s'. getitem fill_example_filled ''price'' = Inr s' \<and>
         cells s' = [Num 1, Num 2, Num 2, Num 4] \<and> is_median 2 [1, 2, 4]"
    by (simp add: med nums)
  from central_fill_values[OF fill c]
  have b: "\<exists>s'. getitem fill_example_filled ''category'' = Inr s' \<and>
         cells s' = [Str ''b'', Str ''a'', Str ''a'', Str ''c'']"
    by (auto simp: md)
  from fill p c a b show ?thesis by blast
qed

section \<open>Missing values after their handling\<close>

lemma filled_member_rev:
  assumes "list_all2 (\<lambda>(n, s) (n', s'). n' = n \<and> f s = Inr s') cs cs'"
    and "(name, s') \<in> set cs'"
  shows "\<exists>s. (name, s) \<in> set cs \<and> f s = Inr s'"
  using assms by (induction rule: list_all2_induct) auto

lemma fill_columns_member:
  assumes "fill_columns f df = Inr df'" and "(name, s') \<in> set (columns df')"
  obtains s where "(name, s) \<in> set (columns df)" "f s = Inr s'"
  using assms filled_member_rev[of f "columns df" "columns df'" name s']
  by (auto simp: fill_columns_Inr)

lemma dropna_no_missing:
  assumes "(name, s') \<in> set (columns (dropna df))"
  shows "NaN \<notin> set (cells s')"
proof
  assume nan: "NaN \<in> set (cells s')"
  define ks where "ks = map (\<lambda>i. NaN \<notin> set (row_at df i)) [0..<nrows df]"
  from assms obtain s where s: "(name, s) \<in> set (columns df)" "cells s' = pick ks (cells s)"
    by (auto simp: dropna_def select_rows_def ks_def)
  with nan obtain i where i: "i < length ks" "i < length (cells s)" "ks ! i" "cells s ! i = NaN"
    by (auto dest: in_set_pickD)
  from i(1,3) have "NaN \<notin> set (row_at df i)"
    by (simp add: ks_def)
  moreover from s(1) have "cells s ! i \<in> set (row_at df i)"
    by (force simp: row_at_def)
  ultimately show False
    using i(4) by simp
qed

lemma fill_constant_no_missing:
  assumes "fill_constant_col s = Inr s'"
  shows "NaN \<notin> set (cells s')"
  using assms by (auto simp: fill_constant_col_def cells_fillna split: if_splits)

lemma fill_central_missing:
  assumes "fill_central_col s = Inr s'" and "NaN \<in> set (cells s')"
  shows "dtype s \<in> {Int64, Float64} \<and> nums s = [] \<and> s' = s"
proof (cases "dtype s \<in> {Int64, Float64}")
  case True
  with assms(1) have s': "s' = fillna (median s) s"
    by (simp add: fill_central_col_def)
  have "median s = NaN"
  proof (rule ccontr)
    assume "median s \<noteq> NaN"
    then have "NaN \<notin> set (cells (fillna (median s) s))"
      by (auto simp: cells_fillna)
    with assms(2) s' show False by simp
  qed
  then have "nums s = []" "fillna (median s) s = s"
    by (simp_all add: median_def median_of_Nil_iff fillna_def)
  with True s' show ?thesis by simp
next
  case False
  with assms(1) obtain m rest where m: "mode s = m # rest" "s' = fillna m s"
    by (auto simp: fill_central_col_def split: list.splits)
  then have "m \<in> set (mode s)" by simp
  then have "m \<noteq> NaN"
    by (auto simp: set_mode notna_def)
  then have "NaN \<notin> set (cells (fillna m s))"
    by (auto simp: cells_fillna)
  with assms(2) m(2) show ?thesis by simp
qed

text \<open>
  Claim C7, amended. When the handling of missing values returns, a column of the
  result holds a missing value only under the central-tendency fill, and then it is a
  numeric column (int64 or float64) without a single number, left as it was: its median
  is NaN. Dropping rows and the constant fill leave no missing value in any column.
\<close>

theorem missing_values_after_handling:
  assumes "handle_missing missing_option df = Inr df'" and "(name, s') \<in> set (columns df')"
  shows "NaN \<in> set (cells s') \<longrightarrow>
           missing_option = FillCentral \<and> dtype s' \<in> {Int64, Float64} \<and> nums s' = [] \<and>
           (name, s') \<in> set (columns df)"
proof (cases missing_option)
  case DropRows
  with assms show ?thesis
    by (auto simp: handle_missing_def dest: dropna_no_missing)
next
  case FillCentral
  with assms(1) have "fill_columns fill_central_col df = Inr df'"
    by (simp add: handle_missing_def)
  from this assms(2) obtain s where "(name, s) \<in> set (columns df)" "fill_central_col s = Inr s'"
    by (rule fill_columns_member)
  with FillCentral show ?thesis
    by (auto dest: fill_central_missing)
next
  case FillConstant
  with assms(1) have "fill_columns fill_constant_col df = Inr df'"
    by (simp add: handle_missing_def)
  from this assms(2) obtain s where "fill_constant_col s = Inr s'"
    by (rule fill_columns_member)
  then show ?thesis
    by (auto dest: fill_constant_no_missing)
qed

theorem missing_values_after_handling_witness:
  "handle_missing FillCentral empty_price_example = Inr empty_price_example \<and>
   (''price'', \<lparr>dtype = Float64, cells = [NaN, NaN]\<rparr>) \<in> set (columns empty_price_example) \<and>
   NaN \<in> set (cells \<lparr>dtype = Float64, cells = [NaN, NaN]\<rparr>) \<and>
   nums \<lparr>dtype = Float64, cells = [NaN, NaN]\<rparr> = []"
proof -
  let ?p = "\<lparr>dtype = Float64, cells = [NaN, NaN]\<rparr>"
  have run: "handle_missing FillCentral empty_price_example = Inr empty_price_example"
    by code_simp
  have mem: "(''price'', ?p) \<in> set (columns empty_price_example)"
    by (simp add: empty_price_example_def)
  from missing_values_after_handling[OF run mem] run mem show ?thesis
    by simp
qed

theorem missing_values_remain_counterexample:
  "handle_missing FillCentral empty_price_example = Inr empty_price_example \<and>
   isnull_sum empty_price_example = [(''order_date'', 0), (''price'', 2), (''quantity'', 0)]"
  by code_simp

section \<open>Completion of the cleaning stage\<close>

lemma mapM_err_total:
  assumes "\<And>x. x \<in> set xs \<Longrightarrow> \<exists>y. f x = Inr y"
  shows "\<exists>ys. mapM_err f xs = Inr ys"
  using assms
proof (induction xs)
  case Nil
  show ?case by simp
next
  case (Cons x xs)
  from Cons.prems obtain y where y: "f x = Inr y"
    by auto
  from Cons obtain ys where "mapM_err f xs = Inr ys"
    by auto
  with y have "mapM_err f (x # xs) = Inr (y # ys)"
    by (simp add: bind_err_def)
  then show ?case by blast
qed

lemma numeric_series_compare:
  assumes "numeric_series s"
  shows "\<exists>m. compare_zero rel s = Inr m"
proof -
  have "\<exists>b. cmp_cell rel c = Inr b" if "c \<in> set (cells s)" for c
    using assms that
    by (auto simp: numeric_series_def list_all_iff cmp_cell_def split: cell.splits)
  then have "\<exists>m. mapM_err (cmp_cell rel) (cells s) = Inr m"
    by (rule mapM_err_total)
  with assms show ?thesis
    by (auto simp: compare_zero_def numeric_series_def)
qed

lemma fill_columns_total:
  assumes "\<And>n s. (n, s) \<in> set (columns df) \<Longrightarrow> \<exists>s'. f s = Inr s'"
  shows "\<exists>df'. fill_columns f df = Inr df'"
proof -
  have "\<exists>y. (case x of (n, s) \<Rightarrow> bind_err (f s) (\<lambda>s'. Inr (n, s'))) = Inr y"
    if "x \<in> set (columns df)" for x
  proof -
    obtain n s where x: "x = (n, s)" by (cases x)
    with that assms obtain s' where "f s = Inr s'" by blast
    with x show ?thesis by (simp add: bind_err_def)
  qed
  then obtain cs where
    "mapM_err (\<lambda>(n, s). bind_err (f s) (\<lambda>s'. Inr (n, s'))) (columns df) = Inr cs"
    using mapM_err_total by blast
  then show ?thesis
    by (simp add: fill_columns_def bind_err_def)
qed

lemma numeric_series_pick:
  "numeric_series s \<Longrightarrow> numeric_series (s\<lparr>cells := pick ks (cells s)\<rparr>)"
  using set_pick_subset[of ks "cells s"]
  by (auto simp: numeric_series_def list_all_iff)

lemma numeric_series_fillna:
  "numeric_series s \<Longrightarrow> numeric_series (fillna (Num r) s)"
  by (cases "dtype s") (auto simp: numeric_series_def list_all_iff fillna_def)

lemma median_cases: "median s = NaN \<or> (\<exists>r. median s = Num r)"
  using median_of_Nil_iff[of "nums s"] median_of_is_median[of "nums s"]
  unfolding median_def by blast

lemma numeric_series_fill_median:
  assumes "numeric_series s"
  shows "numeric_series (fillna (median s) s)"
proof -
  from median_cases[of s] show ?thesis
  proof
    assume "median s = NaN"
    with assms show ?thesis by (simp add: fillna_def)
  next
    assume "\<exists>r. median s = Num r"
    with assms show ?thesis by (auto simp: numeric_series_fillna)
  qed
qed

lemma index_setitem [simp]: "index (setitem df n s) = index df"
  by (simp add: setitem_def)

lemma map_of_replace:
  "map_of (map (\<lambda>(k, c). if k = n then (k, s) else (k, c)) cs) name =
     (if name = n then (if n \<in> fst ` set cs then Some s else None) else map_of cs name)"
  by (induction cs) (force split: if_splits)+

lemma getitem_setitem:
  "getitem (setitem df n s) name = (if name = n then Inr s else getitem df name)"
proof (cases "n \<in> set (map fst (columns df))")
  case True
  then show ?thesis
    by (simp add: getitem_def setitem_def map_of_replace)
next
  case False
  then have "map_of (columns df) n = None"
    by (simp add: map_of_eq_None_iff)
  with False show ?thesis
    by (auto simp: getitem_def setitem_def map_add_def split: option.splits)
qed

lemma names_replace:
  "map fst (map (\<lambda>(k, c). if k = n then (k, s) else (k, c)) cs) = map fst cs"
  by (induction cs) auto

lemma wf_setitem:
  assumes "wf_frame df" and "length (cells s) = nrows df"
  shows "wf_frame (setitem df n s)"
proof (cases "n \<in> set (map fst (columns df))")
  case True
  with assms show ?thesis
    by (auto simp: wf_frame_def setitem_def list_all_iff nrows_def names_replace
             simp del: map_map split: if_splits)
next
  case False
  with assms show ?thesis
    by (auto simp: wf_frame_def setitem_def list_all_iff nrows_def)
qed

lemma parse_dates_Inr:
  assumes "parse_dates conv raw = Inr parsed"
  obtains d where "getitem raw ''order_date'' = Inr d"
    "parsed = setitem raw ''order_date'' (to_datetime conv d)"
  using assms by (auto simp: parse_dates_def bind_err_Inr_iff)

lemma first_occurrence_kept:
  assumes i: "i < nrows df"
  obtains j where "j \<le> i" "row_at df j = row_at df i" "\<not> duplicated df ! j"
proof -
  define j where "j = (LEAST j. row_at df j = row_at df i)"
  have eq: "row_at df j = row_at df i"
    unfolding j_def by (rule LeastI) simp
  have le: "j \<le> i"
    unfolding j_def by (rule Least_le) simp
  have "row_at df k \<noteq> row_at df i" if "k < j" for k
    using that not_less_Least unfolding j_def by blast
  then have "\<forall>k<j. row_at df k \<noteq> row_at df j"
    by (simp add: eq)
  then have "row_at df j \<notin> set (map (row_at df) [0..<j])"
    by auto
  with le i have "\<not> duplicated df ! j"
    by (simp add: duplicated_def)
  with le eq show ?thesis using that by blast
qed

lemma drop_duplicates_keeps_value:
  assumes wf: "wf_frame df" and s: "(n, s) \<in> set (columns df)" and v: "notna s \<noteq> []"
  shows "notna (s\<lparr>cells := pick (map Not (duplicated df)) (cells s)\<rparr>) \<noteq> []"
proof -
  define ks where "ks = map Not (duplicated df)"
  have len: "length (cells s) = nrows df"
    using wf s by (auto simp: wf_frame_def list_all_iff)
  from v obtain x where "x \<in> set (cells s)" "x \<noteq> NaN"
    by (auto simp: notna_def filter_empty_conv)
  then obtain i where i: "i < length (cells s)" "cells s ! i \<noteq> NaN"
    by (auto simp: in_set_conv_nth)
  with len have "i < nrows df" by simp
  then obtain j where j: "j \<le> i" "row_at df j = row_at df i" "\<not> duplicated df ! j"
    by (rule first_occurrence_kept)
  from s obtain c where c: "c < length (columns df)" "columns df ! c = (n, s)"
    by (auto simp: in_set_conv_nth)
  then have "row_at df k ! c = cells s ! k" for k
    by (simp add: row_at_def)
  with j(2) have same: "cells s ! j = cells s ! i"
    by metis
  have jn: "j < nrows df"
    using j(1) \<open>i < nrows df\<close> by simp
  then have "ks ! j"
    using j(3) by (simp add: ks_def duplicated_def)
  moreover have "j < length ks" "j < length (cells s)"
    using jn len by (simp_all add: ks_def duplicated_def)
  ultimately have "cells s ! j \<in> set (pick ks (cells s))"
    by (intro nth_in_pick)
  with same i(2) show ?thesis
    by (auto simp: notna_def filter_empty_conv ks_def)
qed

lemma handle_missing_numeric:
  assumes hm: "handle_missing opt df = Inr df'" and s: "getitem df name = Inr s"
    and num: "numeric_series s"
  shows "\<exists>s'. getitem df' name = Inr s' \<and> numeric_series s'"
proof (cases opt)
  case DropRows
  with hm s num show ?thesis
    by (auto simp: handle_missing_def dropna_def getitem_select_rows numeric_series_pick)
next
  case FillCentral
  with hm have "fill_columns fill_central_col df = Inr df'"
    by (simp add: handle_missing_def)
  from this s obtain s' where s': "fill_central_col s = Inr s'" "getitem df' name = Inr s'"
    by (rule fill_columns_getitem)
  from num s'(1) have "s' = fillna (median s) s"
    by (simp add: fill_central_col_def numeric_series_def)
  with num s'(2) show ?thesis
    by (simp add: numeric_series_fill_median)
next
  case FillConstant
  with hm have "fill_columns fill_constant_col df = Inr df'"
    by (simp add: handle_missing_def)
  from this s obtain s' where s': "fill_constant_col s = Inr s'" "getitem df' name = Inr s'"
    by (rule fill_columns_getitem)
  from num s'(1) have "s' = fillna (Num 0) s"
    by (simp add: fill_constant_col_def numeric_series_def)
  with num s'(2) show ?thesis
    by (simp add: numeric_series_fillna)
qed

lemma remove_invalid_total:
  assumes "getitem df ''price'' = Inr p" "numeric_series p"
    and "getitem df ''quantity'' = Inr q" "numeric_series q"
  shows "\<exists>r. remove_invalid df = Inr r"
proof -
  from assms(2) obtain m1 m3 where
    "compare_zero (\<lambda>r. r < 0) p = Inr m1" "compare_zero (\<lambda>r. 0 \<le> r) p = Inr m3"
    using numeric_series_compare by blast
  moreover from assms(4) obtain m2 m4 where
    "compare_zero (\<lambda>r. r \<le> 0) q = Inr m2" "compare_zero (\<lambda>r. 0 < r) q = Inr m4"
    using numeric_series_compare by blast
  ultimately show ?thesis
    using assms(1,3) by (simp add: remove_invalid_def bind_err_def Let_def)
qed

lemma handle_missing_total:
  assumes wf: "wf_frame df"
    and central: "opt = FillCentral \<longrightarrow>
       (\<forall>(n, s) \<in> set (columns df). dtype s \<notin> {Int64, Float64} \<longrightarrow> notna s \<noteq> [])"
  shows "\<exists>df2. handle_missing opt (drop_duplicates df) = Inr df2"
proof (cases opt)
  case DropRows
  then show ?thesis by (simp add: handle_missing_def)
next
  case FillCentral
  have "\<exists>s''. fill_central_col s' = Inr s''"
    if "(n, s') \<in> set (columns (drop_duplicates df))" for n s'
  proof (cases "dtype s' \<in> {Int64, Float64}")
    case True
    then show ?thesis by (simp add: fill_central_col_def)
  next
    case False
    from that obtain s where s: "(n, s) \<in> set (columns df)"
      "s' = s\<lparr>cells := pick (map Not (duplicated df)) (cells s)\<rparr>"
      by (auto simp: drop_duplicates_def select_rows_def)
    with False have "dtype s \<notin> {Int64, Float64}" by simp
    with central FillCentral s(1) have "notna s \<noteq> []" by blast
    with wf s have "notna s' \<noteq> []"
      by (simp add: drop_duplicates_keeps_value)
    then have "mode s' \<noteq> []"
      by (simp add: mode_Nil_iff)
    with False show ?thesis
      by (auto simp: fill_central_col_def split: list.splits)
  qed
  then have "\<exists>df2. fill_columns fill_central_col (drop_duplicates df) = Inr df2"
    by (rule fill_columns_total)
  with FillCentral show ?thesis by (simp add: handle_missing_def)
next
  case FillConstant
  have "\<exists>df2. fill_columns fill_constant_col (drop_duplicates df) = Inr df2"
    by (rule fill_columns_total) (simp add: fill_constant_col_def)
  with FillConstant show ?thesis by (simp add: handle_missing_def)
qed

text \<open>
  Claim C8, amended. A frame with an \<^verbatim>\<open>order_date\<close> column and with numeric
  \<^verbatim>\<open>price\<close> and \<^verbatim>\<open>quantity\<close> columns goes through date parsing and the cleaning
  stage without an exception under dropping and under the constant fill, and under the
  central-tendency fill when every non-numeric column, the parsed dates among them,
  holds a value. A date that does not convert becomes a missing value.
\<close>

theorem prepare_completes:
  assumes wf: "wf_frame raw"
    and d: "getitem raw ''order_date'' = Inr d"
    and p: "getitem raw ''price'' = Inr p" and pn: "numeric_series p"
    and q: "getitem raw ''quantity'' = Inr q" and qn: "numeric_series q"
    and central: "missing_option = FillCentral \<longrightarrow>
       (\<forall>(n, s) \<in> set (columns (setitem raw ''order_date'' (to_datetime conv d))).
          dtype s \<notin> {Int64, Float64} \<longrightarrow> notna s \<noteq> [])"
  shows "(\<exists>cleaned dupes invalid.
            prepare conv missing_option raw = Inr (cleaned, dupes, invalid)) \<and>
         (\<exists>parsed d'. parse_dates conv raw = Inr parsed \<and>
            getitem parsed ''order_date'' = Inr d' \<and>
            (\<forall>i<length (cells d). conv (cells d ! i) = None \<longrightarrow> cells d' ! i = NaN))"
proof -
  define parsed where "parsed = setitem raw ''order_date'' (to_datetime conv d)"
  have pd: "parse_dates conv raw = Inr parsed"
    by (simp add: parse_dates_def d bind_err_def parsed_def)
  have ld: "length (cells d) = nrows raw"
    using wf d by (rule wf_frame_getitem)
  have wfp: "wf_frame parsed"
    unfolding parsed_def using wf by (rule wf_setitem) (simp add: to_datetime_def ld)
  have gp: "getitem parsed ''price'' = Inr p" and gq: "getitem parsed ''quantity'' = Inr q"
    by (simp_all add: parsed_def getitem_setitem p q)
  define df1 where "df1 = drop_duplicates parsed"
  define ks where "ks = map Not (duplicated parsed)"
  have g1: "getitem df1 ''price'' = Inr (p\<lparr>cells := pick ks (cells p)\<rparr>)"
    "getitem df1 ''quantity'' = Inr (q\<lparr>cells := pick ks (cells q)\<rparr>)"
    by (simp_all add: df1_def drop_duplicates_def ks_def getitem_select_rows gp gq)
  from wfp central obtain df2 where hm: "handle_missing missing_option df1 = Inr df2"
    unfolding df1_def parsed_def[symmetric] using handle_missing_total by blast
  from hm g1(1) pn obtain p2 where p2: "getitem df2 ''price'' = Inr p2" "numeric_series p2"
    using handle_missing_numeric numeric_series_pick by blast
  from hm g1(2) qn obtain q2 where q2: "getitem df2 ''quantity'' = Inr q2" "numeric_series q2"
    using handle_missing_numeric numeric_series_pick by blast
  from p2 q2 obtain r where "remove_invalid df2 = Inr r"
    using remove_invalid_total by blast
  with hm have "\<exists>cleaned dupes invalid. clean missing_option parsed = Inr (cleaned, dupes, invalid)"
    by (cases r) (simp add: clean_def Let_def bind_err_def df1_def)
  then have run: "\<exists>cleaned dupes invalid.
      prepare conv missing_option raw = Inr (cleaned, dupes, invalid)"
    by (simp add: prepare_def pd bind_err_def)
  have gd: "getitem parsed ''order_date'' = Inr (to_datetime conv d)"
    by (simp add: parsed_def getitem_setitem)
  have "cells (to_datetime conv d) ! i = NaN" if "i < length (cells d)" "conv (cells d ! i) = None" for i
    using that by (cases "cells d ! i") (simp_all add: to_datetime_def)
  with run pd gd show ?thesis by blast
qed

theorem prepare_completes_witness:
  "wf_frame raw_orders_example \<and>
   getitem raw_orders_example ''order_date'' =
     Inr \<lparr>dtype = Object, cells = [Str ''2024-01-02'', Str ''soon'', Str ''2024-01-03'']\<rparr> \<and>
   getitem raw_orders_example ''price'' =
     Inr \<lparr>dtype = Float64, cells = [Num 5, NaN, Num (-2)]\<rparr> \<and>
   numeric_series \<lparr>dtype = Float64, cells = [Num 5, NaN, Num (-2)]\<rparr> \<and>
   getitem raw_orders_example ''quantity'' =
     Inr \<lparr>dtype = Int64, cells = [Num 1, Num 2, Num 3]\<rparr> \<and>
   numeric_series \<lparr>dtype = Int64, cells = [Num 1, Num 2, Num 3]\<rparr> \<and>
   (\<exists>cleaned dupes invalid.
      prepare example_conv FillCentral raw_orders_example = Inr (cleaned, dupes, invalid)) \<and>
   (\<exists>parsed d'. parse_dates example_conv raw_orders_example = Inr parsed \<and>
      getitem parsed ''order_date'' = Inr d' \<and> cells d' ! 1 = NaN)"
proof -
  let ?d = "\<lparr>dtype = Object, cells = [Str ''2024-01-02'', Str ''soon'', Str ''2024-01-03'']\<rparr>"
  let ?p = "\<lparr>dtype = Float64, cells = [Num 5, NaN, Num (-2)]\<rparr>"
  let ?q = "\<lparr>dtype = Int64, cells = [Num 1, Num 2, Num 3]\<rparr>"
  have wf: "wf_frame raw_orders_example" by code_simp
  have d: "getitem raw_orders_example ''order_date'' = Inr ?d" by code_simp
  have p: "getitem raw_orders_example ''price'' = Inr ?p" by code_simp
  have pn: "numeric_series ?p" by code_simp
  have q: "getitem raw_orders_example ''quantity'' = Inr ?q" by code_simp
  have qn: "numeric_series ?q" by code_simp
  have central: "FillCentral = FillCentral \<longrightarrow>
       (\<forall>(n, s) \<in> set (columns (setitem raw_orders_example ''order_date''
                                  (to_datetime example_conv ?d))).
          dtype s \<notin> {Int64, Float64} \<longrightarrow> notna s \<noteq> [])"
    by code_simp
  have fails: "example_conv (cells ?d ! 1) = None" by code_simp
  from prepare_completes[OF wf d p pn q qn central] fails
  have "(\<exists>cleaned dupes invalid.
      prepare example_conv FillCentral raw_orders_example = Inr (cleaned, dupes, invalid)) \<and>
   (\<exists>parsed d'. parse_dates example_conv raw_orders_example = Inr parsed \<and>
      getitem parsed ''order_date'' = Inr d' \<and> cells d' ! 1 = NaN)"
    by (auto simp del: One_nat_def)
  with wf d p pn q qn show ?thesis by blast
qed

text \<open>
  The stage does raise: \<^verbatim>\<open>mode()[0]\<close> on a column without any value (here the
  dates, none of which converts), the comparison of a text column with 0, and the
  lookup of an absent column.
\<close>

theorem pipeline_raises_counterexample:
  "prepare example_conv FillCentral unparsed_dates_example = Inl (KeyError ''0'') \<and>
   prepare example_conv DropRows text_price_example = Inl TypeError \<and>
   prepare example_conv FillConstant no_date_example = Inl (KeyError ''order_date'')"
  by code_simp

text \<open>
  Claim C4. The script reads \<^verbatim>\<open>df['order_date']\<close> on line 21 and
  \<^verbatim>\<open>df['price']\<close> and \<^verbatim>\<open>df['quantity']\<close> on line 74 without testing for the
  columns: on a frame that lacks one of them it raises KeyError, under every choice for
  the missing values, instead of skipping the step. The candlestick tab does test for
  its columns, and computes nothing when \<^verbatim>\<open>price\<close> is absent.
\<close>

theorem absent_column_raises:
  "parse_dates example_conv no_date_example = Inl (KeyError ''order_date'') \<and>
   prepare example_conv DropRows no_price_example = Inl (KeyError ''price'') \<and>
   prepare example_conv FillCentral no_price_example = Inl (KeyError ''price'') \<and>
   prepare example_conv FillConstant no_price_example = Inl (KeyError ''price'') \<and>
   prepare example_conv DropRows no_quantity_example = Inl (KeyError ''quantity'') \<and>
   bind_err (parse_dates example_conv no_price_example) daily = Inr None"
  by code_simp

section \<open>The count of invalid rows\<close>

lemma pick_complement:
  "length ks = length xs \<Longrightarrow>
   length (pick ks xs) + length (pick (map Not ks) xs) = length xs"
proof (induction ks arbitrary: xs)
  case Nil
  then show ?case by simp
next
  case (Cons k ks)
  then show ?case by (cases xs) auto
qed

lemma remove_invalid_count_without_missing:
  assumes run: "remove_invalid df = Inr (df', k)" and wf: "wf_frame df"
    and p: "getitem df ''price'' = Inr p" and q: "getitem df ''quantity'' = Inr q"
    and pn: "NaN \<notin> set (cells p)" and qn: "NaN \<notin> set (cells q)"
  shows "nrows df' + k = nrows df"
proof -
  from run p q obtain m1 m2 m3 m4 where
    m1: "compare_zero (\<lambda>r. r < 0) p = Inr m1" and m2: "compare_zero (\<lambda>r. r \<le> 0) q = Inr m2" and
    m3: "compare_zero (\<lambda>r. 0 \<le> r) p = Inr m3" and m4: "compare_zero (\<lambda>r. 0 < r) q = Inr m4" and
    df': "df' = select_rows (map2 (\<and>) m3 m4) df" and
    k: "k = nrows (select_rows (map2 (\<or>) m1 m2) df)"
    by (auto elim!: remove_invalid_Inr)
  have lp: "length (cells p) = nrows df" and lq: "length (cells q) = nrows df"
    using wf p q by (simp_all add: wf_frame_getitem)
  note lens = compare_zero_Inr(1)[OF m1] compare_zero_Inr(1)[OF m2]
    compare_zero_Inr(1)[OF m3] compare_zero_Inr(1)[OF m4]
  have "(map2 (\<or>) m1 m2) ! i = (map Not (map2 (\<and>) m3 m4)) ! i" if "i < nrows df" for i
  proof -
    from that lp pn have "cells p ! i \<noteq> NaN"
      by (metis nth_mem)
    with that lens lp compare_zero_Inr(3)[OF m3, of i] obtain a where a: "cells p ! i = Num a"
      by auto
    from that lq qn have "cells q ! i \<noteq> NaN"
      by (metis nth_mem)
    with that lens lq compare_zero_Inr(3)[OF m4, of i] obtain b where b: "cells q ! i = Num b"
      by auto
    from that lens lp lq a b
      compare_zero_Inr(2)[OF m1, of i] compare_zero_Inr(2)[OF m2, of i]
      compare_zero_Inr(2)[OF m3, of i] compare_zero_Inr(2)[OF m4, of i]
    show ?thesis by auto
  qed
  then have "map2 (\<or>) m1 m2 = map Not (map2 (\<and>) m3 m4)"
    using lens lp lq by (intro nth_equalityI) simp_all
  moreover have "length (map2 (\<and>) m3 m4) = length (index df)"
    using lens lp lq by (simp add: nrows_def)
  ultimately show ?thesis
    using pick_complement[of "map2 (\<and>) m3 m4" "index df"]
    by (simp add: df' k nrows_def)
qed

text \<open>
  Claim C9. Line 74 counts the rows with \<^verbatim>\<open>price < 0\<close> or \<^verbatim>\<open>quantity <= 0\<close>,
  line 75 keeps the rows with \<^verbatim>\<open>price >= 0\<close> and \<^verbatim>\<open>quantity > 0\<close>. A row with a
  missing price is in neither: it is removed and not counted. Here both rows have a
  missing price after the central-tendency fill; both are removed and the count is 0.
\<close>

theorem invalid_count_misses_removed_rows:
  "clean FillCentral empty_price_example = Inr (empty_price_cleaned, 0, 0) \<and>
   nrows empty_price_example = 2 \<and> nrows empty_price_cleaned = 0"
  by code_simp

section \<open>Column classification\<close>

lemma set_select_dtypes:
  "set (select_dtypes include df) =
     {n. \<exists>s. (n, s) \<in> set (columns df) \<and> dtype s \<in> set include}"
  by (force simp: select_dtypes_def)

lemma distinct_names_dtype:
  assumes "distinct (map fst cs)" "(n, s) \<in> set cs" "(n, s') \<in> set cs"
  shows "s' = s"
  using assms by (meson eq_key_imp_eq_value)

text \<open>
  Claim C5, amended. The identifier list is the fixed list of three names, whether
  the frame has those columns or not. The numeric columns are the int64 and float64
  columns not named in it, in the frame's order. Every categorical column is an object
  column, and every object column not named in the identifier list is categorical.
  Numeric columns are neither identifiers nor categorical, and a datetime column is in
  neither list.
\<close>

theorem column_classification:
  assumes "distinct (map fst (columns df))"
  shows "id_cols = [''order_id'', ''customer_id'', ''product_id''] \<and>
    set (numeric_cols df) =
      {n. n \<notin> set id_cols \<and> (\<exists>s. (n, s) \<in> set (columns df) \<and> dtype s \<in> {Int64, Float64})} \<and>
    subseq (numeric_cols df) (map fst (columns df)) \<and>
    set (categorical_cols df) \<subseteq> {n. \<exists>s. (n, s) \<in> set (columns df) \<and> dtype s = Object} \<and>
    {n. n \<notin> set id_cols \<and> (\<exists>s. (n, s) \<in> set (columns df) \<and> dtype s = Object)}
      \<subseteq> set (categorical_cols df) \<and>
    set (numeric_cols df) \<inter> set id_cols = {} \<and>
    set (numeric_cols df) \<inter> set (categorical_cols df) = {} \<and>
    (\<forall>n s. (n, s) \<in> set (columns df) \<and> dtype s = Datetime64 \<longrightarrow>
       n \<notin> set (numeric_cols df) \<union> set (categorical_cols df))"
proof -
  have num: "set (numeric_cols df) =
      {n. n \<notin> set id_cols \<and> (\<exists>s. (n, s) \<in> set (columns df) \<and> dtype s \<in> {Int64, Float64})}"
    by (auto simp: numeric_cols_def set_select_dtypes)
  have cat: "set (categorical_cols df) = {n. \<exists>s. (n, s) \<in> set (columns df) \<and> dtype s = Object}"
    by (auto simp: categorical_cols_def set_select_dtypes)
  have "subseq (select_dtypes [Int64, Float64] df) (map fst (columns df))"
    unfolding select_dtypes_def by (intro subseq_map subseq_filter_left)
  then have sub: "subseq (numeric_cols df) (map fst (columns df))"
    unfolding numeric_cols_def
    by (blast intro: subseq_order.trans subseq_filter_left)
  have disj: "set (numeric_cols df) \<inter> set (categorical_cols df) = {}"
  proof (rule ccontr)
    assume "set (numeric_cols df) \<inter> set (categorical_cols df) \<noteq> {}"
    then obtain n s s' where "(n, s) \<in> set (columns df)" "dtype s \<in> {Int64, Float64}"
      "(n, s') \<in> set (columns df)" "dtype s' = Object"
      unfolding num cat by blast
    with assms distinct_names_dtype[of "columns df" n s s'] show False
      by auto
  qed
  have dt: "n \<notin> set (numeric_cols df) \<union> set (categorical_cols df)"
    if "(n, s) \<in> set (columns df)" "dtype s = Datetime64" for n s
  proof
    assume "n \<in> set (numeric_cols df) \<union> set (categorical_cols df)"
    then obtain s' where "(n, s') \<in> set (columns df)" "dtype s' \<in> {Int64, Float64, Object}"
      unfolding num cat by blast
    with assms that distinct_names_dtype[of "columns df" n s s'] show False
      by auto
  qed
  show ?thesis
  proof (intro conjI)
    show "id_cols = [''order_id'', ''customer_id'', ''product_id'']"
      by (simp add: id_cols_def)
    show "set (numeric_cols df) =
      {n. n \<notin> set id_cols \<and> (\<exists>s. (n, s) \<in> set (columns df) \<and> dtype s \<in> {Int64, Float64})}"
      by (rule num)
    show "subseq (numeric_cols df) (map fst (columns df))"
      by (rule sub)
    show "set (categorical_cols df) \<subseteq> {n. \<exists>s. (n, s) \<in> set (columns df) \<and> dtype s = Object}"
      by (simp add: cat)
    show "{n. n \<notin> set id_cols \<and> (\<exists>s. (n, s) \<in> set (columns df) \<and> dtype s = Object)}
      \<subseteq> set (categorical_cols df)"
      unfolding cat by blast
    show "set (numeric_cols df) \<inter> set id_cols = {}"
      unfolding num by blast
    show "set (numeric_cols df) \<inter> set (categorical_cols df) = {}"
      by (rule disj)
    show "\<forall>n s. (n, s) \<in> set (columns df) \<and> dtype s = Datetime64 \<longrightarrow>
       n \<notin> set (numeric_cols df) \<union> set (categorical_cols df)"
      using dt by blast
  qed
qed

theorem column_classification_witness:
  "distinct (map fst (columns spec_columns_example)) \<and>
   numeric_cols spec_columns_example = [''price''] \<and>
   categorical_cols spec_columns_example = [''category''] \<and>
   set (numeric_cols spec_columns_example) \<inter> set id_cols = {} \<and>
   set (numeric_cols spec_columns_example) \<inter> set (categorical_cols spec_columns_example) = {}"
proof -
  have d: "distinct (map fst (columns spec_columns_example))"
    by code_simp
  have n: "numeric_cols spec_columns_example = [''price'']"
    by code_simp
  have c: "categorical_cols spec_columns_example = [''category'']"
    by code_simp
  from column_classification[OF d] d n c show ?thesis
    by blast
qed

theorem classification_not_a_partition_counterexample:
  "categorical_cols classified_example = [''customer_id'', ''category''] \<and>
   ''customer_id'' \<in> set id_cols \<and>
   numeric_cols classified_example = [''price''] \<and>
   ''order_date'' \<in> set (map fst (columns classified_example)) \<and>
   ''order_date'' \<notin> set id_cols \<union> set (numeric_cols classified_example)
                       \<union> set (categorical_cols classified_example) \<and>
   ''product_id'' \<in> set id_cols \<and>
   ''product_id'' \<notin> set (map fst (columns classified_example))"
  by code_simp

section \<open>The daily aggregation\<close>

lemma mapM_err_map:
  assumes "\<And>x. x \<in> set xs \<Longrightarrow> f x = Inr (g x)"
  shows "mapM_err f xs = Inr (map g xs)"
  using assms by (induction xs) (simp_all add: bind_err_def)

lemma notna_map_Num [simp]: "filter (\<lambda>c. c \<noteq> NaN) (map Num ps) = map Num ps"
  by (induction ps) auto

lemma map_filter_Num [simp]:
  "List.map_filter (\<lambda>c. case c of Num r \<Rightarrow> Some r | _ \<Rightarrow> None) (map Num ps) = ps"
  by (induction ps) auto

lemma agg_first_Num: "ps \<noteq> [] \<Longrightarrow> agg_first (map Num ps) = Num (hd ps)"
  by (cases ps) (simp_all add: agg_first_def)

lemma agg_last_Num: "ps \<noteq> [] \<Longrightarrow> agg_last (map Num ps) = Num (last ps)"
  by (cases ps rule: rev_cases) (simp_all add: agg_last_def)

lemma reduce_max: "ps \<noteq> [] \<Longrightarrow> reduce max ps = Max (set ps)"
  by (cases ps) (simp_all add: reduce_def Max.set_eq_fold[symmetric])

lemma reduce_min: "ps \<noteq> [] \<Longrightarrow> reduce min ps = Min (set ps)"
  by (cases ps) (simp_all add: reduce_def Min.set_eq_fold[symmetric])

lemma agg_extreme_Num:
  assumes "ps \<noteq> []"
  shows "agg_extreme fr fs fi (map Num ps) = Inr (Num (reduce fr ps))"
  using assms by (simp add: agg_extreme_def list_all_iff)

lemma agg_max_Num: "ps \<noteq> [] \<Longrightarrow> agg_max (map Num ps) = Inr (Num (Max (set ps)))"
  by (simp add: agg_max_def agg_extreme_Num reduce_max)

lemma agg_min_Num: "ps \<noteq> [] \<Longrightarrow> agg_min (map Num ps) = Inr (Num (Min (set ps)))"
  by (simp add: agg_min_def agg_extreme_Num reduce_min)

lemma notna_dates:
  "filter (\<lambda>c. c \<noteq> NaN) (map (\<lambda>c. case c of Stamp t \<Rightarrow> Day (t div ns_per_day) | _ \<Rightarrow> NaN) xs) =
   map Day (List.map_filter day_of xs)"
  by (induction xs) (auto simp: day_of_def split: cell.splits)

lemma sort_cells_Days:
  assumes "distinct ms" and "set ms = Day ` set ys"
  shows "sort_cells ms = map Day (sort (remdups ys))"
proof (cases "ms = []")
  case True
  with assms show ?thesis by (simp add: sort_cells_def)
next
  case False
  let ?get = "\<lambda>c. case c of Day d \<Rightarrow> Some d | _ \<Rightarrow> None"
  define zs where "zs = List.map_filter ?get ms"
  from assms(2) have all: "list_all (\<lambda>c. case c of Day _ \<Rightarrow> True | _ \<Rightarrow> False) ms"
    by (auto simp: list_all_iff)
  then have ms: "map Day zs = ms"
    unfolding zs_def by (rule all_Day_map)
  from False obtain m where "m \<in> set ms" by (cases ms) auto
  with assms(2) obtain d where "Day d \<in> set ms" by auto
  then have no: "\<not> list_all (\<lambda>c. case c of Str _ \<Rightarrow> True | _ \<Rightarrow> False) ms"
    "\<not> list_all (\<lambda>c. case c of Stamp _ \<Rightarrow> True | _ \<Rightarrow> False) ms"
    "\<not> list_all (\<lambda>c. case c of Num _ \<Rightarrow> True | _ \<Rightarrow> False) ms"
    by (force simp: list_all_iff)+
  with all have sc: "sort_cells ms = map Day (sort zs)"
    by (simp add: sort_cells_def zs_def)
  from assms(1) ms have "distinct zs"
    by (metis distinct_map)
  moreover have "set zs = set ys"
  proof -
    from ms assms(2) have "Day ` set zs = Day ` set ys"
      by (metis set_map)
    then show ?thesis
      by (simp add: inj_image_eq_iff inj_on_def)
  qed
  ultimately have "sort zs = sort (remdups ys)"
    by (intro sorted_distinct_set_unique) simp_all
  with sc show ?thesis by simp
qed

lemma group_keys_dates:
  "group_keys \<lparr>dtype = Object,
      cells = map (\<lambda>c. case c of Stamp t \<Rightarrow> Day (t div ns_per_day) | _ \<Rightarrow> NaN) (cells od)\<rparr> =
   map Day (days od)"
  unfolding group_keys_def days_def
  by (rule sort_cells_Days) (simp_all add: notna_def notna_dates)

lemma group_cells_dates:
  assumes "list_all (\<lambda>c. case c of Num _ \<Rightarrow> True | _ \<Rightarrow> False) vs"
  shows "map snd (filter (\<lambda>(key, v). key = Day d)
           (zip (map (\<lambda>c. case c of Stamp t \<Rightarrow> Day (t div ns_per_day) | _ \<Rightarrow> NaN) xs) vs)) =
         map Num (List.map_filter
           (\<lambda>(c, v). if day_of c = Some d then (case v of Num r \<Rightarrow> Some r | _ \<Rightarrow> None) else None)
           (zip xs vs))"
  using assms
proof (induction xs arbitrary: vs)
  case Nil
  show ?case by simp
next
  case (Cons x xs)
  show ?case
  proof (cases vs)
    case Nil
    then show ?thesis by simp
  next
    case (Cons v vs')
    with Cons.prems obtain r where "v = Num r" "list_all (\<lambda>c. case c of Num _ \<Rightarrow> True | _ \<Rightarrow> False) vs'"
      by (cases v) auto
    with Cons Cons.IH[of vs'] show ?thesis
      by (cases x) (simp_all add: day_of_def)
  qed
qed

lemma day_prices_nonempty:
  assumes d: "d \<in> set (days od)" and len: "length (cells od) = length (cells p)"
    and num: "list_all (\<lambda>c. case c of Num _ \<Rightarrow> True | _ \<Rightarrow> False) (cells p)"
  shows "day_prices od p d \<noteq> []"
proof -
  from d obtain c where c: "c \<in> set (cells od)" "day_of c = Some d"
    by (auto simp: days_def List.map_filter_def)
  then obtain i where i: "i < length (cells od)" "cells od ! i = c"
    by (auto simp: in_set_conv_nth)
  from i(1) len have "cells p ! i \<in> set (cells p)"
    by simp
  with num obtain r where r: "cells p ! i = Num r"
    by (cases "cells p ! i") (auto simp: list_all_iff)
  from i len have "(c, Num r) \<in> set (zip (cells od) (cells p))"
    using r by (auto simp: in_set_zip)
  with c(2) have "r \<in> set (day_prices od p d)"
    by (force simp: day_prices_def List.map_filter_def)
  then show ?thesis by auto
qed

lemma getitem_present:
  "getitem df name = Inr s \<Longrightarrow> name \<in> set (map fst (columns df))"
  by (auto simp: getitem_def split: option.splits dest!: map_of_SomeD intro: image_eqI[where x="(name, s)"])

lemma daily_of_numeric_prices:
  assumes od: "getitem df ''order_date'' = Inr od" and dt: "dtype od = Datetime64"
    and p: "getitem df ''price'' = Inr p"
    and len: "length (cells od) = length (cells p)"
    and num: "list_all (\<lambda>c. case c of Num _ \<Rightarrow> True | _ \<Rightarrow> False) (cells p)"
  shows "daily df = Inr (Some (map (ohlc_of_day od p) (days od)))"
proof -
  define dates where "dates = \<lparr>dtype = Object,
      cells = map (\<lambda>c. case c of Stamp t \<Rightarrow> Day (t div ns_per_day) | _ \<Rightarrow> NaN) (cells od)\<rparr>"
  define df' where "df' = setitem df ''date'' dates"
  define body where "body = (\<lambda>k.
      let g = group_cells dates k p in
      bind_err (agg_max g) (\<lambda>hi.
      bind_err (agg_min g) (\<lambda>lo.
      Inr \<lparr>date_key = k, open_agg = agg_first g, high_agg = hi,
           low_agg = lo, close_agg = agg_last g\<rparr>)))"
  define g where "g = (\<lambda>k. ohlc_of_day od p (case k of Day d \<Rightarrow> d | _ \<Rightarrow> 0))"
  have guard: "''order_date'' \<in> set (map fst (columns df))" "''price'' \<in> set (map fst (columns df))"
    using od p by (simp_all only: getitem_present)
  have dd: "dt_date od = Inr dates"
    by (simp add: dt_date_def dt dates_def)
  have gk: "getitem df' ''date'' = Inr dates" and gp: "getitem df' ''price'' = Inr p"
    by (simp_all add: df'_def getitem_setitem p)
  have keys: "group_keys dates = map Day (days od)"
    unfolding dates_def by (rule group_keys_dates)
  have step: "body k = Inr (g k)" if "k \<in> set (map Day (days od))" for k
  proof -
    from that obtain d where d: "k = Day d" "d \<in> set (days od)" by auto
    define ps where "ps = day_prices od p d"
    have ne: "ps \<noteq> []"
      unfolding ps_def using d(2) len num by (rule day_prices_nonempty)
    have "group_cells dates k p = map Num ps"
      unfolding group_cells_def dates_def d(1) ps_def day_prices_def
      using num by (simp add: group_cells_dates)
    with ne show ?thesis
      by (simp add: body_def g_def d(1) bind_err_def agg_max_Num agg_min_Num agg_first_Num
          agg_last_Num ohlc_of_day_def Let_def ps_def)
  qed
  then have "mapM_err body (map Day (days od)) = Inr (map g (map Day (days od)))"
    by (rule mapM_err_map)
  moreover have "map g (map Day (days od)) = map (ohlc_of_day od p) (days od)"
    by (simp add: g_def)
  ultimately have main: "mapM_err body (group_keys dates) = Inr (map (ohlc_of_day od p) (days od))"
    by (simp add: keys)
  have bind_Inr: "bind_err (Inr x) f = f x" for x :: 'a and f :: "'a \<Rightarrow> error + 'b"
    by (simp add: bind_err_def)
  note main' = main[unfolded body_def Let_def]
  note gk' = gk[unfolded df'_def]
  note gp' = gp[unfolded df'_def]
  show ?thesis
    unfolding daily_def Let_def
    by (simp only: guard od dd gk' gp' main' bind_Inr simp_thms if_True)
qed

text \<open>
  Claim C6. On the cleaned frame, with the dates parsed, the aggregation of the
  candlestick chart has one entry per calendar day of \<^verbatim>\<open>order_date\<close>, the days in
  increasing order, and the entry of a day holds, of the prices of that day's rows in the
  frame's row order, the first as open, the maximum as high, the minimum as low and the
  last as close. Same-day prices 10, 15, 8, 12 give open 10, high 15, low 8, close 12.
\<close>

theorem daily_ohlc:
  assumes cl: "clean missing_option parsed = Inr (df, dupes, invalid)" and wf: "wf_frame parsed"
    and od: "getitem df ''order_date'' = Inr od" and dt: "dtype od = Datetime64"
  shows "\<exists>p. getitem df ''price'' = Inr p \<and>
           daily df = Inr (Some (map (ohlc_of_day od p) (days od))) \<and>
           sorted (days od) \<and> distinct (days od) \<and>
           (\<forall>d \<in> set (days od). day_prices od p d \<noteq> [])"
proof -
  from cl obtain df2 where
    hm: "handle_missing missing_option (drop_duplicates parsed) = Inr df2" and
    ri: "remove_invalid df2 = Inr (df, invalid)"
    by (rule clean_Inr)
  from hm wf have wf2: "wf_frame df2"
    by (auto intro: handle_missing_wf wf_drop_duplicates)
  from ri obtain m3 m4 where "df = select_rows (map2 (\<and>) m3 m4) df2"
    by (rule remove_invalid_Inr)
  with wf2 have wfd: "wf_frame df"
    by (simp add: wf_select_rows)
  from remove_invalid_rows_valid[OF ri wf2] obtain p where
    p: "getitem df ''price'' = Inr p" and lp: "length (cells p) = nrows df" and
    valid: "\<forall>i<nrows df. \<exists>a. cells p ! i = Num a"
    by blast
  from valid lp have num: "list_all (\<lambda>c. case c of Num _ \<Rightarrow> True | _ \<Rightarrow> False) (cells p)"
    by (auto simp: list_all_length)
  have len: "length (cells od) = length (cells p)"
    using wfd od lp by (simp add: wf_frame_getitem)
  have "daily df = Inr (Some (map (ohlc_of_day od p) (days od)))"
    using od dt p len num by (rule daily_of_numeric_prices)
  moreover have "day_prices od p d \<noteq> []" if "d \<in> set (days od)" for d
    using that len num by (rule day_prices_nonempty)
  moreover have "sorted (days od)" "distinct (days od)"
    by (simp_all add: days_def)
  ultimately show ?thesis
    using p by blast
qed

theorem daily_ohlc_witness:
  "clean DropRows same_day_example = Inr (same_day_example, 0, 0) \<and>
   wf_frame same_day_example \<and>
   daily same_day_example =
     Inr (Some [\<lparr>date_key = Day 19724, open_agg = Num 10, high_agg = Num 15,
                 low_agg = Num 8, close_agg = Num 12\<rparr>])"
proof -
  let ?od = "\<lparr>dtype = Datetime64,
             cells = [Stamp 1704153600000000000, Stamp 1704157200000000000,
                      Stamp 1704160800000000000, Stamp 1704164400000000000]\<rparr>"
  let ?p = "\<lparr>dtype = Float64, cells = [Num 10, Num 15, Num 8, Num 12]\<rparr>"
  have cl: "clean DropRows same_day_example = Inr (same_day_example, 0, 0)"
    by code_simp
  have wf: "wf_frame same_day_example"
    by code_simp
  have od: "getitem same_day_example ''order_date'' = Inr ?od"
    by code_simp
  have dt: "dtype ?od = Datetime64"
    by simp
  have p: "getitem same_day_example ''price'' = Inr ?p"
    by code_simp
  have ev: "map (ohlc_of_day ?od ?p) (days ?od) =
      [\<lparr>date_key = Day 19724, open_agg = Num 10, high_agg = Num 15,
        low_agg = Num 8, close_agg = Num 12\<rparr>]"
    by code_simp
  from daily_ohlc[OF cl wf od dt] p ev
  have "daily same_day_example =
     Inr (Some [\<lparr>date_key = Day 19724, open_agg = Num 10, high_agg = Num 15,
                 low_agg = Num 8, close_agg = Num 12\<rparr>])"
    by auto
  with cl wf show ?thesis by blast
qed

end
